theory Spec2Isabelle
  imports Main
begin

section \<open>The self-balancing binary search tree of \<open>utils/binary_search_tree.py\<close>\<close>

subsection \<open>Data model\<close>

text \<open>
  The exceptions the tree code can raise. \<open>RuntimeError\<close> and \<open>ValueError\<close> are raised
  explicitly by the node methods, \<open>IndexError\<close> by \<open>__getitem__\<close>, \<open>AssertionError\<close> by the
  two \<open>assert\<close> statements of \<open>balance\<close>. \<open>AttributeError\<close> is what Python raises for a
  method call or attribute read on \<open>None\<close>, and \<open>TypeError\<close> for an order comparison with
  \<open>None\<close>.
\<close>

datatype error =
  RuntimeError | ValueError | IndexError | AssertionError | AttributeError | TypeError

text \<open>
  A value of type \<open>Optional[BSTree.Node]\<close>: \<open>Absent\<close> is \<open>None\<close>, and \<open>Node l v b r\<close> is a
  node object with fields \<open>left = l\<close>, \<open>value = v\<close>, \<open>bf = b\<close>, \<open>right = r\<close>. Every node is
  referenced by exactly one slot (its parent's child slot or the tree's \<open>root\<close>), so the
  object graph is this term. Values are taken from a linear order (mutually comparable
  Python values); Python's \<open>None\<close> as an argument of a container method is modelled by
  \<open>'a option\<close>.
\<close>

datatype 'a tree = Absent | Node "'a tree" 'a int "'a tree"

text \<open>
  Node methods mutate \<open>self\<close> in place and may raise afterwards. A method therefore returns
  either \<open>Inr t\<close>, the node it returns (the caller stores it back), or \<open>Inl (e, s)\<close>: the
  exception \<open>e\<close> was raised and \<open>s\<close> is the state in which the object \<open>self\<close> was left.
\<close>

type_synonym 'a outcome = "(error \<times> 'a tree) + 'a tree"

subsection \<open>Node: traversal, length, height, extrema\<close>

fun Node_len :: "'a tree \<Rightarrow> nat" where
  "Node_len Absent = 0"
| "Node_len (Node l v b r) = 1 + Node_len l + Node_len r"

text \<open>\<open>Node.__iter__\<close>: the values the generator yields, in order.\<close>

fun Node_iter :: "'a tree \<Rightarrow> 'a list" where
  "Node_iter Absent = []"
| "Node_iter (Node l v b r) = Node_iter l @ [v] @ Node_iter r"

text \<open>\<open>Node.__reversed__\<close>.\<close>

fun Node_reversed :: "'a tree \<Rightarrow> 'a list" where
  "Node_reversed Absent = []"
| "Node_reversed (Node l v b r) = Node_reversed r @ [v] @ Node_reversed l"

text \<open>\<open>Node.height\<close>; the default child height \<open>-1\<close> is the value at \<open>Absent\<close>.\<close>

fun height :: "'a tree \<Rightarrow> int" where
  "height Absent = -1"
| "height (Node l v b r) = max (height l) (height r) + 1"

text \<open>\<open>Node.find_min\<close> and \<open>Node.find_max\<close>: the loops descend while a child exists.\<close>

fun find_min :: "'a tree \<Rightarrow> error + 'a" where
  "find_min Absent = Inl AttributeError"
| "find_min (Node l v b r) = (case l of Absent \<Rightarrow> Inr v | Node _ _ _ _ \<Rightarrow> find_min l)"

fun find_max :: "'a tree \<Rightarrow> error + 'a" where
  "find_max Absent = Inl AttributeError"
| "find_max (Node l v b r) = (case r of Absent \<Rightarrow> Inr v | Node _ _ _ _ \<Rightarrow> find_max r)"

subsection \<open>Node: rotations and balancing\<close>

text \<open>
  \<open>rotate_left\<close>: \<open>self.bf\<close> is updated first, and the update of \<open>b.bf\<close> reads the new
  \<open>self.bf\<close>. The \<open>ValueError\<close> is raised before anything is written.
\<close>

fun rotate_left :: "'a tree \<Rightarrow> 'a outcome" where
  "rotate_left Absent = Inl (AttributeError, Absent)"
| "rotate_left (Node l v bf Absent) = Inl (ValueError, Node l v bf Absent)"
| "rotate_left (Node l v bf (Node bl bv bbf br)) =
     (let self_bf = bf - (1 + max bbf 0);
          b_bf = bbf - (1 - min self_bf 0)
      in Inr (Node (Node l v self_bf bl) bv b_bf br))"

fun rotate_right :: "'a tree \<Rightarrow> 'a outcome" where
  "rotate_right Absent = Inl (AttributeError, Absent)"
| "rotate_right (Node Absent v bf r) = Inl (ValueError, Node Absent v bf r)"
| "rotate_right (Node (Node bl bv bbf br) v bf r) =
     (let self_bf = bf + (1 - min bbf 0);
          b_bf = bbf + (1 + max self_bf 0)
      in Inr (Node bl bv b_bf (Node br v self_bf r)))"

fun balance :: "'a tree \<Rightarrow> 'a outcome" where
  "balance Absent = Inl (AttributeError, Absent)"
| "balance (Node l v bf r) =
     (if bf < -1 then
        (case l of
           Absent \<Rightarrow> Inl (AssertionError, Node l v bf r)
         | Node ll lv lbf lr \<Rightarrow>
             if lbf \<le> 0 then rotate_right (Node l v bf r)
             else
               (case rotate_left l of
                  Inl (e, l') \<Rightarrow> Inl (e, Node l' v bf r)
                | Inr l' \<Rightarrow> rotate_right (Node l' v bf r)))
      else if bf > 1 then
        (case r of
           Absent \<Rightarrow> Inl (AssertionError, Node l v bf r)
         | Node rl rv rbf rr \<Rightarrow>
             if rbf \<ge> 0 then rotate_left (Node l v bf r)
             else
               (case rotate_right r of
                  Inl (e, r') \<Rightarrow> Inl (e, Node l v bf r')
                | Inr r' \<Rightarrow> rotate_left (Node l v bf r')))
      else Inr (Node l v bf r))"

subsection \<open>Node: insertion and deletion\<close>

text \<open>
  The test of \<open>insert\<close> on the child's balance factor before (\<open>old_bf\<close>) and after the
  recursive call: the child's subtree is taken to have grown in height.
\<close>

definition grew :: "int \<Rightarrow> int \<Rightarrow> bool" where
  "grew old_bf new_bf \<longleftrightarrow> (old_bf \<le> 0 \<and> new_bf < old_bf) \<or> (old_bf \<ge> 0 \<and> new_bf > old_bf)"

text \<open>
  The test of \<open>delete\<close>: the child no longer exists, or its balance factor changed to 0.
\<close>

fun shrank :: "int \<Rightarrow> 'a tree \<Rightarrow> bool" where
  "shrank old_bf Absent = True"
| "shrank old_bf (Node l v new_bf r) = (\<bar>old_bf\<bar> = 1 \<and> new_bf = 0)"

fun Node_insert :: "'a::linorder \<Rightarrow> 'a tree \<Rightarrow> 'a outcome" where
  "Node_insert val Absent = Inl (AttributeError, Absent)"
| "Node_insert val (Node l v bf r) =
     (if val = v then Inl (RuntimeError, Node l v bf r)
      else if val < v then
        (case l of
           Absent \<Rightarrow> balance (Node (Node Absent val 0 Absent) v (bf - 1) r)
         | Node ll lv old_bf lr \<Rightarrow>
             (case Node_insert val l of
                Inl (e, l') \<Rightarrow> Inl (e, Node l' v bf r)
              | Inr Absent \<Rightarrow> Inl (AttributeError, Node Absent v bf r)
              | Inr (Node nl nv new_bf nr) \<Rightarrow>
                  balance (Node (Node nl nv new_bf nr) v
                             (if grew old_bf new_bf then bf - 1 else bf) r)))
      else if val > v then
        (case r of
           Absent \<Rightarrow> balance (Node l v (bf + 1) (Node Absent val 0 Absent))
         | Node rl rv old_bf rr \<Rightarrow>
             (case Node_insert val r of
                Inl (e, r') \<Rightarrow> Inl (e, Node l v bf r')
              | Inr Absent \<Rightarrow> Inl (AttributeError, Node l v bf Absent)
              | Inr (Node nl nv new_bf nr) \<Rightarrow>
                  balance (Node l v (if grew old_bf new_bf then bf + 1 else bf)
                             (Node nl nv new_bf nr))))
      else balance (Node l v bf r))"

text \<open>
  In the two-children case \<open>self.value\<close> is overwritten before the recursive call, so an
  exception raised by that call leaves the new value in place.
\<close>

fun Node_delete :: "'a::linorder \<Rightarrow> 'a tree \<Rightarrow> 'a outcome" where
  "Node_delete val Absent = Inl (AttributeError, Absent)"
| "Node_delete val (Node l v bf r) =
     (if val < v then
        (case l of
           Absent \<Rightarrow> Inl (RuntimeError, Node l v bf r)
         | Node ll lv old_bf lr \<Rightarrow>
             (case Node_delete val l of
                Inl (e, l') \<Rightarrow> Inl (e, Node l' v bf r)
              | Inr l' \<Rightarrow> balance (Node l' v (if shrank old_bf l' then bf + 1 else bf) r)))
      else if val > v then
        (case r of
           Absent \<Rightarrow> Inl (RuntimeError, Node l v bf r)
         | Node rl rv old_bf rr \<Rightarrow>
             (case Node_delete val r of
                Inl (e, r') \<Rightarrow> Inl (e, Node l v bf r')
              | Inr r' \<Rightarrow> balance (Node l v (if shrank old_bf r' then bf - 1 else bf) r')))
      else
        (case l of
           Absent \<Rightarrow> Inr r
         | Node ll lv old_bf lr \<Rightarrow>
             (case r of
                Absent \<Rightarrow> Inr l
              | Node rl rv rbf rr \<Rightarrow>
                  (case find_max l of
                     Inl e \<Rightarrow> Inl (e, Node l v bf r)
                   | Inr successor_val \<Rightarrow>
                       (case Node_delete successor_val l of
                          Inl (e, l') \<Rightarrow> Inl (e, Node l' successor_val bf r)
                        | Inr l' \<Rightarrow>
                            balance (Node l' successor_val
                                       (if shrank old_bf l' then bf + 1 else bf) r))))))"

subsection \<open>The container\<close>

text \<open>
  A \<open>BSTree\<close> object has the single field \<open>root\<close>; its state is the value of that field.
  A method that mutates the container returns its result together with the new state.
\<close>

definition BSTree_len :: "'a tree \<Rightarrow> nat" where
  "BSTree_len root = (case root of Absent \<Rightarrow> 0 | Node _ _ _ _ \<Rightarrow> Node_len root)"

definition BSTree_iter :: "'a tree \<Rightarrow> 'a list" where
  "BSTree_iter root = (case root of Absent \<Rightarrow> [] | Node _ _ _ _ \<Rightarrow> Node_iter root)"

definition BSTree_reversed :: "'a tree \<Rightarrow> 'a list" where
  "BSTree_reversed root = (case root of Absent \<Rightarrow> [] | Node _ _ _ _ \<Rightarrow> Node_reversed root)"

text \<open>
  The bare \<open>except:\<close> of \<open>insert\<close> and \<open>delete\<close> catches every exception; \<open>self.root\<close> is
  not reassigned then, and the root object stays as the failed call left it.
\<close>

definition BSTree_insert :: "'a::linorder option \<Rightarrow> 'a tree \<Rightarrow> bool \<times> 'a tree" where
  "BSTree_insert val root =
     (case val of
        None \<Rightarrow> (False, root)
      | Some x \<Rightarrow>
          (case root of
             Absent \<Rightarrow> (True, Node Absent x 0 Absent)
           | Node _ _ _ _ \<Rightarrow>
               (case Node_insert x root of
                  Inl (e, root') \<Rightarrow> (False, root')
                | Inr root' \<Rightarrow> (True, root'))))"

definition BSTree_delete :: "'a::linorder option \<Rightarrow> 'a tree \<Rightarrow> bool \<times> 'a tree" where
  "BSTree_delete val root =
     (case val of
        None \<Rightarrow> (False, root)
      | Some x \<Rightarrow>
          (case root of
             Absent \<Rightarrow> (False, root)
           | Node _ _ _ _ \<Rightarrow>
               (case Node_delete x root of
                  Inl (e, root') \<Rightarrow> (False, root')
                | Inr root' \<Rightarrow> (True, root'))))"

text \<open>\<open>BSTree.__init__\<close>: the result of each \<open>insert\<close> is discarded.\<close>

fun init_loop :: "'a::linorder option list \<Rightarrow> 'a tree \<Rightarrow> 'a tree" where
  "init_loop [] root = root"
| "init_loop (val # vals) root = init_loop vals (snd (BSTree_insert val root))"

definition BSTree_init :: "'a::linorder option list option \<Rightarrow> 'a tree" where
  "BSTree_init iterable =
     (case iterable of None \<Rightarrow> Absent | Some vals \<Rightarrow> init_loop vals Absent)"

text \<open>
  \<open>__getitem__\<close>: the loop over \<open>enumerate(...)\<close>, with \<open>i\<close> the running index and the list
  the values still to come.
\<close>

fun getitem_loop :: "int \<Rightarrow> int \<Rightarrow> 'a list \<Rightarrow> error + 'a" where
  "getitem_loop pos i [] = Inl IndexError"
| "getitem_loop pos i (val # vals) =
     (if (if pos < 0 then - i - 1 else i) = pos then Inr val
      else getitem_loop pos (i + 1) vals)"

definition BSTree_getitem :: "int \<Rightarrow> 'a tree \<Rightarrow> error + 'a" where
  "BSTree_getitem pos root =
     getitem_loop pos 0 (if pos < 0 then BSTree_reversed root else BSTree_iter root)"

text \<open>
  \<open>__setitem__\<close>: an exception of \<open>self[pos]\<close> propagates before anything is changed;
  the booleans returned by \<open>delete\<close> and \<open>insert\<close> are discarded.
\<close>

definition BSTree_setitem :: "int \<Rightarrow> 'a::linorder option \<Rightarrow> 'a tree \<Rightarrow> error option \<times> 'a tree" where
  "BSTree_setitem pos val root =
     (case BSTree_getitem pos root of
        Inl e \<Rightarrow> (Some e, root)
      | Inr old \<Rightarrow> (None, snd (BSTree_insert val (snd (BSTree_delete (Some old) root)))))"

text \<open>
  \<open>__contains__\<close>: the \<open>while\<close> loop follows one child per round. Comparing \<open>None\<close> with
  a stored value raises \<open>TypeError\<close>.
\<close>

fun contains_loop :: "'a::linorder \<Rightarrow> 'a tree \<Rightarrow> bool" where
  "contains_loop val Absent = False"
| "contains_loop val (Node l v bf r) =
     (if val < v then contains_loop val l
      else if val > v then contains_loop val r
      else True)"

definition BSTree_contains :: "'a::linorder option \<Rightarrow> 'a tree \<Rightarrow> error + bool" where
  "BSTree_contains val root =
     (case val of
        Some x \<Rightarrow> Inr (contains_loop x root)
      | None \<Rightarrow> (case root of Absent \<Rightarrow> Inr False | Node _ _ _ _ \<Rightarrow> Inl TypeError))"

text \<open>\<open>index\<close>: the first position whose value equals \<open>val\<close>, else \<open>ValueError\<close>.\<close>

fun index_loop :: "'a option \<Rightarrow> nat \<Rightarrow> 'a list \<Rightarrow> error + nat" where
  "index_loop val i [] = Inl ValueError"
| "index_loop val i (v # vs) = (if Some v = val then Inr i else index_loop val (i + 1) vs)"

definition BSTree_index :: "'a option \<Rightarrow> 'a tree \<Rightarrow> error + nat" where
  "BSTree_index val root = index_loop val 0 (BSTree_iter root)"

subsection \<open>Sequences of public mutations\<close>

datatype 'a call = Insert "'a option" | Delete "'a option"

fun run_call :: "'a::linorder call \<Rightarrow> 'a tree \<Rightarrow> 'a tree" where
  "run_call (Insert val) root = snd (BSTree_insert val root)"
| "run_call (Delete val) root = snd (BSTree_delete val root)"

text \<open>The tree after the calls \<open>cs\<close>, made in order on a new empty \<open>BSTree()\<close>.\<close>

definition built :: "'a::linorder call list \<Rightarrow> 'a tree" where
  "built cs = foldl (\<lambda>root c. run_call c root) (BSTree_init None) cs"

subsection \<open>Invariants\<close>

text \<open>Order invariant: the in-order traversal is strictly ascending.\<close>

definition ordered :: "'a::linorder tree \<Rightarrow> bool" where
  "ordered t \<longleftrightarrow> sorted_wrt (<) (Node_iter t)"

text \<open>Every stored balance factor is the height difference recomputed from scratch.\<close>

fun bf_exact :: "'a tree \<Rightarrow> bool" where
  "bf_exact Absent = True"
| "bf_exact (Node l v bf r) = (bf = height r - height l \<and> bf_exact l \<and> bf_exact r)"

fun bf_bounded :: "'a tree \<Rightarrow> bool" where
  "bf_bounded Absent = True"
| "bf_bounded (Node l v bf r) = (\<bar>bf\<bar> \<le> 1 \<and> bf_bounded l \<and> bf_bounded r)"

definition balanced :: "'a tree \<Rightarrow> bool" where
  "balanced t \<longleftrightarrow> bf_exact t \<and> bf_bounded t"

text \<open>The balance factor read from a node (\<open>node.bf\<close>); 0 stands in where there is no node.\<close>

fun root_bf :: "'a tree \<Rightarrow> int" where
  "root_bf Absent = 0"
| "root_bf (Node l v bf r) = bf"

subsection \<open>The value set a sequence of calls describes\<close>

text \<open>
  What the interface promises of each call, on the set of stored values: \<open>insert(v)\<close>
  adds \<open>v\<close>, \<open>delete(v)\<close> removes it, and a call with \<open>None\<close> changes nothing.
\<close>

fun apply_call :: "'a call \<Rightarrow> 'a set \<Rightarrow> 'a set" where
  "apply_call (Insert None) S = S"
| "apply_call (Insert (Some x)) S = insert x S"
| "apply_call (Delete None) S = S"
| "apply_call (Delete (Some x)) S = S - {x}"

definition values_after :: "'a call list \<Rightarrow> 'a set" where
  "values_after cs = foldl (\<lambda>S c. apply_call c S) {} cs"

section \<open>Proofs\<close>

subsection \<open>Rotations and balancing\<close>

lemma height_ge: "-1 \<le> height t"
  by (induction t) auto

lemma rotate_left_iter: "rotate_left t = Inr t' \<Longrightarrow> Node_iter t' = Node_iter t"
  by (induction t rule: rotate_left.induct) (auto simp: Let_def)

lemma rotate_right_iter: "rotate_right t = Inr t' \<Longrightarrow> Node_iter t' = Node_iter t"
  by (induction t rule: rotate_right.induct) (auto simp: Let_def)

lemma balance_iter: "balance t = Inr t' \<Longrightarrow> Node_iter t' = Node_iter t"
  by (cases t) (auto simp: Let_def split: if_splits tree.splits sum.splits dest!: rotate_left_iter rotate_right_iter)

lemma balance_LL:
  assumes "lb = 0 \<or> lb = -1"
  shows "balance (Node (Node ll lv lb lr) v (-2) r) =
           Inr (Node ll lv (lb + 1) (Node lr v (- lb - 1) r))"
  using assms by (auto simp: Let_def)

lemma balance_LR:
  assumes "lrb = -1 \<or> lrb = 0 \<or> lrb = 1"
  shows "balance (Node (Node ll lv 1 (Node lrl lrv lrb lrr)) v (-2) r) =
           Inr (Node (Node ll lv (if lrb = 1 then -1 else 0) lrl) lrv 0
                     (Node lrr v (if lrb = -1 then 1 else 0) r))"
  using assms by (auto simp: Let_def)

lemma balance_RR:
  assumes "rb = 0 \<or> rb = 1"
  shows "balance (Node l v 2 (Node rl rv rb rr)) =
           Inr (Node (Node l v (1 - rb) rl) rv (rb - 1) rr)"
  using assms by (auto simp: Let_def)

lemma balance_RL:
  assumes "rlb = -1 \<or> rlb = 0 \<or> rlb = 1"
  shows "balance (Node l v 2 (Node (Node rll rlv rlb rlr) rv (-1) rr)) =
           Inr (Node (Node l v (if rlb = 1 then -1 else 0) rll) rlv 0
                     (Node rlr rv (if rlb = -1 then 1 else 0) rr))"
  using assms by (auto simp: Let_def)

lemma balance_left_heavy:
  assumes "bf_exact l" "bf_bounded l" "bf_exact r" "bf_bounded r" "height r - height l = -2"
  shows "\<exists>t'. balance (Node l v (-2) r) = Inr t' \<and> t' \<noteq> Absent \<and> bf_exact t' \<and> bf_bounded t' \<and>
           (root_bf t' = 0 \<longleftrightarrow> root_bf l \<noteq> 0) \<and>
           height t' = height (Node l v (-2) r) - (if root_bf t' = 0 then 1 else 0)"
proof (cases l)
  case Absent
  with assms height_ge [of r] show ?thesis by auto
next
  case (Node ll lv lb lr)
  with assms have lb: "lb = height lr - height ll" "lb = -1 \<or> lb = 0 \<or> lb = 1"
    and sub: "bf_exact ll" "bf_exact lr" "bf_bounded ll" "bf_bounded lr"
    and hr: "height r = max (height ll) (height lr) - 1"
    by auto
  show ?thesis
  proof (cases "lb = 1")
    case False
    with lb have "lb = 0 \<or> lb = -1" by auto
    then have "balance (Node l v (-2) r) = Inr (Node ll lv (lb + 1) (Node lr v (- lb - 1) r))"
      unfolding Node by (rule balance_LL)
    moreover have "bf_exact (Node ll lv (lb + 1) (Node lr v (- lb - 1) r))"
      using lb sub hr assms(3) False by auto
    moreover have "bf_bounded (Node ll lv (lb + 1) (Node lr v (- lb - 1) r))"
      using lb sub False assms(4) by auto
    moreover have "height (Node ll lv (lb + 1) (Node lr v (- lb - 1) r)) =
        height (Node l v (-2) r) - (if lb + 1 = 0 then 1 else 0)"
      using lb hr False unfolding Node by auto
    ultimately show ?thesis using Node False lb by auto
  next
    case True
    with lb Node sub obtain lrl lrv lrb lrr where lr: "lr = Node lrl lrv lrb lrr"
      using height_ge [of ll] by (cases lr) auto
    with sub have lrb: "lrb = height lrr - height lrl" "lrb = -1 \<or> lrb = 0 \<or> lrb = 1"
      and sub2: "bf_exact lrl" "bf_exact lrr" "bf_bounded lrl" "bf_bounded lrr"
      by auto
    let ?t' = "Node (Node ll lv (if lrb = 1 then -1 else 0) lrl) lrv 0
                     (Node lrr v (if lrb = -1 then 1 else 0) r)"
    have "balance (Node l v (-2) r) = Inr ?t'"
      unfolding Node lr True using lrb(2) by (rule balance_LR)
    moreover have hll: "height ll = max (height lrl) (height lrr)" 
      using lb True lr by auto
    have hr': "height r = max (height lrl) (height lrr)"
      using hr lb True lr by auto
    have "bf_exact ?t'"
      using sub sub2 assms(3) hll hr' lrb by auto
    moreover have "bf_bounded ?t'"
      using sub sub2 assms(4) by auto
    moreover have "height ?t' = height (Node l v (-2) r) - 1"
      unfolding Node lr using hll hr' lrb by auto
    ultimately show ?thesis using Node True by auto
  qed
qed


lemma balance_right_heavy:
  assumes "bf_exact l" "bf_bounded l" "bf_exact r" "bf_bounded r" "height r - height l = 2"
  shows "\<exists>t'. balance (Node l v 2 r) = Inr t' \<and> t' \<noteq> Absent \<and> bf_exact t' \<and> bf_bounded t' \<and>
           (root_bf t' = 0 \<longleftrightarrow> root_bf r \<noteq> 0) \<and>
           height t' = height (Node l v 2 r) - (if root_bf t' = 0 then 1 else 0)"
proof (cases r)
  case Absent
  with assms height_ge [of l] show ?thesis by auto
next
  case (Node rl rv rb rr)
  with assms have rb: "rb = height rr - height rl" "rb = -1 \<or> rb = 0 \<or> rb = 1"
    and sub: "bf_exact rl" "bf_exact rr" "bf_bounded rl" "bf_bounded rr"
    and hl: "height l = max (height rl) (height rr) - 1"
    by auto
  show ?thesis
  proof (cases "rb = -1")
    case False
    with rb have "rb = 0 \<or> rb = 1" by auto
    then have "balance (Node l v 2 r) = Inr (Node (Node l v (1 - rb) rl) rv (rb - 1) rr)"
      unfolding Node by (rule balance_RR)
    moreover have "bf_exact (Node (Node l v (1 - rb) rl) rv (rb - 1) rr)"
      using rb sub hl assms(1) False by auto
    moreover have "bf_bounded (Node (Node l v (1 - rb) rl) rv (rb - 1) rr)"
      using rb sub False assms(2) by auto
    moreover have "height (Node (Node l v (1 - rb) rl) rv (rb - 1) rr) =
        height (Node l v 2 r) - (if rb - 1 = 0 then 1 else 0)"
      using rb hl False unfolding Node by auto
    ultimately show ?thesis using Node False rb by auto
  next
    case True
    with rb Node sub obtain rll rlv rlb rlr where rl: "rl = Node rll rlv rlb rlr"
      using height_ge [of rr] by (cases rl) auto
    with sub have rlb: "rlb = height rlr - height rll" "rlb = -1 \<or> rlb = 0 \<or> rlb = 1"
      and sub2: "bf_exact rll" "bf_exact rlr" "bf_bounded rll" "bf_bounded rlr"
      by auto
    let ?t' = "Node (Node l v (if rlb = 1 then -1 else 0) rll) rlv 0
                     (Node rlr rv (if rlb = -1 then 1 else 0) rr)"
    have "balance (Node l v 2 r) = Inr ?t'"
      unfolding Node rl True using rlb(2) by (rule balance_RL)
    moreover have hrr: "height rr = max (height rll) (height rlr)"
      using rb True rl by auto
    have hl': "height l = max (height rll) (height rlr)"
      using hl rb True rl by auto
    have "bf_exact ?t'"
      using sub sub2 assms(1) hrr hl' rlb by auto
    moreover have "bf_bounded ?t'"
      using sub sub2 assms(2) by auto
    moreover have "height ?t' = height (Node l v 2 r) - 1"
      unfolding Node rl using hrr hl' rlb by auto
    ultimately show ?thesis using Node True by auto
  qed
qed

subsection \<open>Insertion keeps the balance factors exact\<close>

text \<open>
  From here on \<open>balance\<close> is used through the lemmas above only.
\<close>

declare balance.simps [simp del]

lemma balanced_Node:
  "balanced (Node l v b r) \<longleftrightarrow> b = height r - height l \<and> \<bar>b\<bar> \<le> 1 \<and> balanced l \<and> balanced r"
  by (auto simp: balanced_def)

lemma balanced_Absent: "balanced Absent"
  by (simp add: balanced_def)

lemma balance_id: "\<bar>b\<bar> \<le> 1 \<Longrightarrow> balance (Node l v b r) = Inr (Node l v b r)"
  by (auto simp: balance.simps)

lemma insert_left_step:
  assumes "balanced (Node l v b r)" "balanced l'" "l' \<noteq> Absent"
    and "height l' = height l + (if g then 1 else 0)"
    and "g \<and> b = -1 \<longrightarrow> root_bf l' \<noteq> 0"
  shows "\<exists>t'. balance (Node l' v (if g then b - 1 else b) r) = Inr t' \<and> t' \<noteq> Absent \<and>
           balanced t' \<and>
           height t' = height (Node l v b r) + (if grew b (root_bf t') then 1 else 0)"
proof (cases "g \<and> b = -1")
  case True
  with assms have h: "height r - height l' = -2" and nz: "root_bf l' \<noteq> 0"
    by (auto simp: balanced_Node)
  from assms have "bf_exact l'" "bf_bounded l'" "bf_exact r" "bf_bounded r"
    by (auto simp: balanced_def)
  from balance_left_heavy [OF this h, of v] obtain t' where
    t': "balance (Node l' v (-2) r) = Inr t'" "t' \<noteq> Absent" "bf_exact t'" "bf_bounded t'"
      "root_bf t' = 0 \<longleftrightarrow> root_bf l' \<noteq> 0"
      "height t' = height (Node l' v (-2) r) - (if root_bf t' = 0 then 1 else 0)"
    by blast
  from True have "(if g then b - 1 else b) = -2" by simp
  moreover from t'(5,6) nz True assms(1,4)
  have "height t' = height (Node l v b r) + (if grew b (root_bf t') then 1 else 0)"
    by (auto simp: balanced_Node grew_def)
  ultimately show ?thesis using t'(1-4) by (simp only: balanced_def) blast
next
  case False
  let ?b = "if g then b - 1 else b"
  from False assms(1) have "\<bar>?b\<bar> \<le> 1" by (auto simp: balanced_Node)
  then have "balance (Node l' v ?b r) = Inr (Node l' v ?b r)" by (rule balance_id)
  moreover have "balanced (Node l' v ?b r)"
    using assms False by (auto simp: balanced_Node)
  moreover have "height (Node l' v ?b r) = height (Node l v b r) + (if grew b ?b then 1 else 0)"
    using assms False by (auto simp: balanced_Node grew_def)
  ultimately show ?thesis by (intro exI [of _ "Node _ v ?b _"]) simp
qed

lemma insert_right_step:
  assumes "balanced (Node l v b r)" "balanced r'" "r' \<noteq> Absent"
    and "height r' = height r + (if g then 1 else 0)"
    and "g \<and> b = 1 \<longrightarrow> root_bf r' \<noteq> 0"
  shows "\<exists>t'. balance (Node l v (if g then b + 1 else b) r') = Inr t' \<and> t' \<noteq> Absent \<and>
           balanced t' \<and>
           height t' = height (Node l v b r) + (if grew b (root_bf t') then 1 else 0)"
proof (cases "g \<and> b = 1")
  case True
  with assms have h: "height r' - height l = 2" and nz: "root_bf r' \<noteq> 0"
    by (auto simp: balanced_Node)
  from assms have "bf_exact l" "bf_bounded l" "bf_exact r'" "bf_bounded r'"
    by (auto simp: balanced_def)
  from balance_right_heavy [OF this h, of v] obtain t' where
    t': "balance (Node l v 2 r') = Inr t'" "t' \<noteq> Absent" "bf_exact t'" "bf_bounded t'"
      "root_bf t' = 0 \<longleftrightarrow> root_bf r' \<noteq> 0"
      "height t' = height (Node l v 2 r') - (if root_bf t' = 0 then 1 else 0)"
    by blast
  from True have "(if g then b + 1 else b) = 2" by simp
  moreover from t'(5,6) nz True assms(1,4)
  have "height t' = height (Node l v b r) + (if grew b (root_bf t') then 1 else 0)"
    by (auto simp: balanced_Node grew_def)
  ultimately show ?thesis using t'(1-4) by (simp only: balanced_def) blast
next
  case False
  let ?b = "if g then b + 1 else b"
  from False assms(1) have "\<bar>?b\<bar> \<le> 1" by (auto simp: balanced_Node)
  then have "balance (Node l v ?b r') = Inr (Node l v ?b r')" by (rule balance_id)
  moreover have "balanced (Node l v ?b r')"
    using assms False by (auto simp: balanced_Node)
  moreover have "height (Node l v ?b r') = height (Node l v b r) + (if grew b ?b then 1 else 0)"
    using assms False by (auto simp: balanced_Node grew_def)
  ultimately show ?thesis by (intro exI [of _ "Node _ v ?b _"]) simp
qed

lemma bounded_root: "balanced t \<Longrightarrow> \<bar>root_bf t\<bar> \<le> 1"
  by (cases t) (auto simp: balanced_def)

lemma grew_nonzero: "\<bar>old_bf\<bar> \<le> 1 \<Longrightarrow> grew old_bf new_bf \<Longrightarrow> new_bf \<noteq> 0"
  by (auto simp: grew_def)

lemma balanced_leaf: "balanced (Node Absent x 0 Absent)"
  by (simp add: balanced_Node balanced_Absent)

lemma Node_insert_balanced:
  "balanced t \<Longrightarrow> t \<noteq> Absent \<Longrightarrow>
   Node_insert x t = Inl (RuntimeError, t) \<and> x \<in> set (Node_iter t) \<or>
   (\<exists>t'. Node_insert x t = Inr t' \<and> t' \<noteq> Absent \<and> balanced t' \<and>
      height t' = height t + (if grew (root_bf t) (root_bf t') then 1 else 0))"
proof (induction t)
  case Absent
  then show ?case by simp
next
  case (Node l v b r)
  note bal = Node.prems(1)
  then have bl: "balanced l" and br: "balanced r" by (auto simp: balanced_Node)
  consider (eq) "x = v" | (lt) "x < v" | (gt) "x > v" by (metis neqE)
  then show ?case
  proof cases
    case eq
    then show ?thesis by simp
  next
    case lt
    then have nlt: "x \<noteq> v" by simp
    show ?thesis
    proof (cases l)
      case Absent
      have unfold: "Node_insert x (Node l v b r) =
          balance (Node (Node Absent x 0 Absent) v (if True then b - 1 else b) r)"
        using lt nlt Absent by simp
      have "\<exists>t'. balance (Node (Node Absent x 0 Absent) v (if True then b - 1 else b) r) = Inr t' \<and>
              t' \<noteq> Absent \<and> balanced t' \<and>
              height t' = height (Node l v b r) + (if grew b (root_bf t') then 1 else 0)"
        using bal Absent height_ge [of r]
        by (intro insert_left_step) (auto simp: balanced_leaf balanced_Node)
      then show ?thesis unfolding unfold root_bf.simps by blast
    next
      case Nd: (Node ll lv lb lr)
      with Node.IH(1) bl have IH:
        "Node_insert x l = Inl (RuntimeError, l) \<and> x \<in> set (Node_iter l) \<or>
         (\<exists>l'. Node_insert x l = Inr l' \<and> l' \<noteq> Absent \<and> balanced l' \<and>
            height l' = height l + (if grew lb (root_bf l') then 1 else 0))"
        by simp
      then show ?thesis
      proof
        assume "Node_insert x l = Inl (RuntimeError, l) \<and> x \<in> set (Node_iter l)"
        then have e: "Node_insert x l = Inl (RuntimeError, l)" and mem: "x \<in> set (Node_iter l)"
          by simp_all
        from lt nlt Nd e have "Node_insert x (Node l v b r) = Inl (RuntimeError, Node l v b r)"
          by simp
        with mem show ?thesis by simp
      next
        assume "\<exists>l'. Node_insert x l = Inr l' \<and> l' \<noteq> Absent \<and> balanced l' \<and>
            height l' = height l + (if grew lb (root_bf l') then 1 else 0)"
        then obtain nl nv nb nr where ins: "Node_insert x l = Inr (Node nl nv nb nr)"
          and bl': "balanced (Node nl nv nb nr)"
          and hl': "height (Node nl nv nb nr) = height l + (if grew lb nb then 1 else 0)"
          by (metis root_bf.simps(2) tree.exhaust)
        have unfold: "Node_insert x (Node l v b r) =
            balance (Node (Node nl nv nb nr) v (if grew lb nb then b - 1 else b) r)"
          using lt nlt Nd ins by (simp split del: if_split)
        have "\<exists>t'. balance (Node (Node nl nv nb nr) v (if grew lb nb then b - 1 else b) r) = Inr t' \<and>
              t' \<noteq> Absent \<and> balanced t' \<and>
              height t' = height (Node l v b r) + (if grew b (root_bf t') then 1 else 0)"
          using bal bl' hl' bounded_root [OF bl] Nd
          by (intro insert_left_step) (auto dest: grew_nonzero)
        then show ?thesis unfolding unfold root_bf.simps by blast
      qed
    qed
  next
    case gt
    then have ngt: "\<not> x < v" "x \<noteq> v" by auto
    show ?thesis
    proof (cases r)
      case Absent
      have unfold: "Node_insert x (Node l v b r) =
          balance (Node l v (if True then b + 1 else b) (Node Absent x 0 Absent))"
        using gt ngt Absent by simp
      have "\<exists>t'. balance (Node l v (if True then b + 1 else b) (Node Absent x 0 Absent)) = Inr t' \<and>
              t' \<noteq> Absent \<and> balanced t' \<and>
              height t' = height (Node l v b r) + (if grew b (root_bf t') then 1 else 0)"
        using bal Absent height_ge [of l]
        by (intro insert_right_step) (auto simp: balanced_leaf balanced_Node)
      then show ?thesis unfolding unfold root_bf.simps by blast
    next
      case Nd: (Node rl rv rb rr)
      with Node.IH(2) br have IH:
        "Node_insert x r = Inl (RuntimeError, r) \<and> x \<in> set (Node_iter r) \<or>
         (\<exists>r'. Node_insert x r = Inr r' \<and> r' \<noteq> Absent \<and> balanced r' \<and>
            height r' = height r + (if grew rb (root_bf r') then 1 else 0))"
        by simp
      then show ?thesis
      proof
        assume "Node_insert x r = Inl (RuntimeError, r) \<and> x \<in> set (Node_iter r)"
        then have e: "Node_insert x r = Inl (RuntimeError, r)" and mem: "x \<in> set (Node_iter r)"
          by simp_all
        from gt ngt Nd e have "Node_insert x (Node l v b r) = Inl (RuntimeError, Node l v b r)"
          by simp
        with mem show ?thesis by simp
      next
        assume "\<exists>r'. Node_insert x r = Inr r' \<and> r' \<noteq> Absent \<and> balanced r' \<and>
            height r' = height r + (if grew rb (root_bf r') then 1 else 0)"
        then obtain nl nv nb nr where ins: "Node_insert x r = Inr (Node nl nv nb nr)"
          and br': "balanced (Node nl nv nb nr)"
          and hr': "height (Node nl nv nb nr) = height r + (if grew rb nb then 1 else 0)"
          by (metis root_bf.simps(2) tree.exhaust)
        have unfold: "Node_insert x (Node l v b r) =
            balance (Node l v (if grew rb nb then b + 1 else b) (Node nl nv nb nr))"
          using gt ngt Nd ins by (simp split del: if_split)
        have "\<exists>t'. balance (Node l v (if grew rb nb then b + 1 else b) (Node nl nv nb nr)) = Inr t' \<and>
              t' \<noteq> Absent \<and> balanced t' \<and>
              height t' = height (Node l v b r) + (if grew b (root_bf t') then 1 else 0)"
          using bal br' hr' bounded_root [OF br] Nd
          by (intro insert_right_step) (auto dest: grew_nonzero)
        then show ?thesis unfolding unfold root_bf.simps by blast
      qed
    qed
  qed
qed

subsection \<open>Deletion: one rebalancing step\<close>

lemma shrank_root: "t' \<noteq> Absent \<Longrightarrow> shrank b t' \<longleftrightarrow> \<bar>b\<bar> = 1 \<and> root_bf t' = 0"
  by (cases t') auto

lemma delete_left_step:
  assumes "balanced (Node l v b r)" "balanced l'"
    and "height l' = height l - (if s then 1 else 0)"
  shows "\<exists>t'. balance (Node l' w (if s then b + 1 else b) r) = Inr t' \<and> t' \<noteq> Absent \<and>
           balanced t' \<and>
           height t' = height (Node l v b r) - (if shrank b t' then 1 else 0)"
proof (cases "s \<and> b = 1")
  case True
  with assms have h: "height r - height l' = 2"
    by (auto simp: balanced_Node)
  from assms have "bf_exact l'" "bf_bounded l'" "bf_exact r" "bf_bounded r"
    by (auto simp: balanced_def)
  from balance_right_heavy [OF this h, of w] obtain t' where
    t': "balance (Node l' w 2 r) = Inr t'" "t' \<noteq> Absent" "bf_exact t'" "bf_bounded t'"
      "height t' = height (Node l' w 2 r) - (if root_bf t' = 0 then 1 else 0)"
    by blast
  from True have "(if s then b + 1 else b) = 2" by simp
  moreover from t'(2,5) True assms(1,3)
  have "height t' = height (Node l v b r) - (if shrank b t' then 1 else 0)"
    by (auto simp: balanced_Node shrank_root)
  ultimately show ?thesis using t'(1-4) by (simp only: balanced_def) blast
next
  case False
  let ?b = "if s then b + 1 else b"
  let ?t = "Node l' w ?b r"
  from False assms(1) have "\<bar>?b\<bar> \<le> 1" by (auto simp: balanced_Node)
  then have "balance ?t = Inr ?t" by (rule balance_id)
  moreover have "balanced ?t"
    using assms False by (auto simp: balanced_Node)
  moreover have "height ?t = height (Node l v b r) - (if shrank b ?t then 1 else 0)"
    using assms False by (auto simp: balanced_Node)
  ultimately show ?thesis by (intro exI [of _ ?t]) simp
qed

lemma delete_right_step:
  assumes "balanced (Node l v b r)" "balanced r'"
    and "height r' = height r - (if s then 1 else 0)"
  shows "\<exists>t'. balance (Node l w (if s then b - 1 else b) r') = Inr t' \<and> t' \<noteq> Absent \<and>
           balanced t' \<and>
           height t' = height (Node l v b r) - (if shrank b t' then 1 else 0)"
proof (cases "s \<and> b = -1")
  case True
  with assms have h: "height r' - height l = -2"
    by (auto simp: balanced_Node)
  from assms have "bf_exact l" "bf_bounded l" "bf_exact r'" "bf_bounded r'"
    by (auto simp: balanced_def)
  from balance_left_heavy [OF this h, of w] obtain t' where
    t': "balance (Node l w (-2) r') = Inr t'" "t' \<noteq> Absent" "bf_exact t'" "bf_bounded t'"
      "height t' = height (Node l w (-2) r') - (if root_bf t' = 0 then 1 else 0)"
    by blast
  from True have "(if s then b - 1 else b) = -2" by simp
  moreover from t'(2,5) True assms(1,3)
  have "height t' = height (Node l v b r) - (if shrank b t' then 1 else 0)"
    by (auto simp: balanced_Node shrank_root)
  ultimately show ?thesis using t'(1-4) by (simp only: balanced_def) blast
next
  case False
  let ?b = "if s then b - 1 else b"
  let ?t = "Node l w ?b r'"
  from False assms(1) have "\<bar>?b\<bar> \<le> 1" by (auto simp: balanced_Node)
  then have "balance ?t = Inr ?t" by (rule balance_id)
  moreover have "balanced ?t"
    using assms False by (auto simp: balanced_Node)
  moreover have "height ?t = height (Node l v b r) - (if shrank b ?t then 1 else 0)"
    using assms False by (auto simp: balanced_Node)
  ultimately show ?thesis by (intro exI [of _ ?t]) simp
qed

subsection \<open>The order invariant and the stored values\<close>

lemma ordered_Node:
  "ordered (Node l v b r) \<longleftrightarrow>
     ordered l \<and> ordered r \<and> (\<forall>y \<in> set (Node_iter l). y < v) \<and> (\<forall>y \<in> set (Node_iter r). v < y)"
proof -
  have "(\<forall>y \<in> set (Node_iter l). y < v) \<Longrightarrow> (\<forall>y \<in> set (Node_iter r). v < y) \<Longrightarrow>
        (\<forall>x \<in> set (Node_iter l). \<forall>y \<in> set (Node_iter r). x < y)"
    by (meson less_trans)
  then show ?thesis
    unfolding ordered_def by (simp add: sorted_wrt_append) blast
qed

lemma ordered_Absent: "ordered Absent"
  by (simp add: ordered_def)

lemma find_max_ordered:
  "ordered t \<Longrightarrow> t \<noteq> Absent \<Longrightarrow>
   \<exists>m. find_max t = Inr m \<and> m \<in> set (Node_iter t) \<and> (\<forall>y \<in> set (Node_iter t). y \<le> m)"
proof (induction t)
  case Absent
  then show ?case by simp
next
  case (Node l v b r)
  from Node.prems have ord: "ordered r" "\<forall>y \<in> set (Node_iter l). y < v"
    "\<forall>y \<in> set (Node_iter r). v < y"
    by (simp_all add: ordered_Node)
  show ?case
  proof (cases r)
    case Absent
    with ord show ?thesis by auto
  next
    case Nd: (Node rl rv rb rr)
    with Node.IH(2) ord(1) obtain m where
      m: "find_max r = Inr m" "m \<in> set (Node_iter r)" "\<forall>y \<in> set (Node_iter r). y \<le> m"
      by auto
    from m(2) ord(3) have vm: "v < m" by blast
    have "\<forall>y \<in> set (Node_iter (Node l v b r)). y \<le> m"
    proof
      fix y assume "y \<in> set (Node_iter (Node l v b r))"
      then consider "y \<in> set (Node_iter l)" | "y = v" | "y \<in> set (Node_iter r)" by auto
      then show "y \<le> m"
      proof cases
        case 1
        with ord(2) have "y < v" by blast
        with vm show ?thesis by simp
      next
        case 2
        with vm show ?thesis by simp
      next
        case 3
        with m(3) show ?thesis by blast
      qed
    qed
    moreover have "find_max (Node l v b r) = Inr m" using Nd m(1) by simp
    moreover have "m \<in> set (Node_iter (Node l v b r))" using m(2) by simp
    ultimately show ?thesis by blast
  qed
qed

lemma Node_iter_empty: "Node_iter t = [] \<longleftrightarrow> t = Absent"
  by (cases t) auto

lemma balance_values:
  assumes "balance (Node l v b r) = Inr t'"
  shows "ordered t' = ordered (Node l v b r)"
    and "set (Node_iter t') = insert v (set (Node_iter l) \<union> set (Node_iter r))"
proof -
  from assms have "Node_iter t' = Node_iter (Node l v b r)" by (rule balance_iter)
  then show "ordered t' = ordered (Node l v b r)"
    and "set (Node_iter t') = insert v (set (Node_iter l) \<union> set (Node_iter r))"
    by (simp_all add: ordered_def)
qed

lemma Node_insert_values:
  "ordered t \<Longrightarrow> Node_insert x t = Inr t' \<Longrightarrow>
   ordered t' \<and> set (Node_iter t') = insert x (set (Node_iter t))"
proof (induction t arbitrary: t')
  case Absent
  then show ?case by simp
next
  case (Node l v b r)
  from Node.prems(1) have ord: "ordered l" "ordered r" "\<forall>y \<in> set (Node_iter l). y < v"
    "\<forall>y \<in> set (Node_iter r). v < y"
    by (simp_all add: ordered_Node)
  from Node.prems(2) have ne: "x \<noteq> v" by (auto split: if_splits)
  show ?case
  proof (cases "x < v")
    case True
    have "\<exists>l' b'. balance (Node l' v b' r) = Inr t' \<and> ordered l' \<and>
            set (Node_iter l') = insert x (set (Node_iter l))"
    proof (cases l)
      case Absent
      with Node.prems(2) ne True
      have "balance (Node (Node Absent x 0 Absent) v (b - 1) r) = Inr t'" by simp
      moreover have "ordered (Node Absent x 0 Absent)" by (simp add: ordered_def)
      ultimately show ?thesis using Absent by fastforce
    next
      case Nd: (Node ll lv lb lr)
      show ?thesis
      proof (cases "Node_insert x l")
        case (Inl p)
        with Node.prems(2) ne True Nd show ?thesis by (cases p) simp
      next
        case (Inr l')
        from Node.IH(1) [OF ord(1) Inr] have l': "ordered l'"
          "set (Node_iter l') = insert x (set (Node_iter l))" by simp_all
        from Node.prems(2) ne True Nd Inr
        have "\<exists>b'. balance (Node l' v b' r) = Inr t'"
          by (cases l') (auto split: if_splits)
        with l' show ?thesis by blast
      qed
    qed
    then obtain l' b' where bal: "balance (Node l' v b' r) = Inr t'" and l': "ordered l'"
      "set (Node_iter l') = insert x (set (Node_iter l))" by blast
    from balance_values [OF bal] l' ord True show ?thesis
      by (auto simp: ordered_Node)
  next
    case False
    with ne have gt: "x > v" by simp
    have "\<exists>r' b'. balance (Node l v b' r') = Inr t' \<and> ordered r' \<and>
            set (Node_iter r') = insert x (set (Node_iter r))"
    proof (cases r)
      case Absent
      with Node.prems(2) ne False gt
      have "balance (Node l v (b + 1) (Node Absent x 0 Absent)) = Inr t'" by simp
      moreover have "ordered (Node Absent x 0 Absent)" by (simp add: ordered_def)
      ultimately show ?thesis using Absent by fastforce
    next
      case Nd: (Node rl rv rb rr)
      show ?thesis
      proof (cases "Node_insert x r")
        case (Inl p)
        with Node.prems(2) ne False gt Nd show ?thesis by (cases p) simp
      next
        case (Inr r')
        from Node.IH(2) [OF ord(2) Inr] have r': "ordered r'"
          "set (Node_iter r') = insert x (set (Node_iter r))" by simp_all
        from Node.prems(2) ne False gt Nd Inr
        have "\<exists>b'. balance (Node l v b' r') = Inr t'"
          by (cases r') (auto split: if_splits)
        with r' show ?thesis by blast
      qed
    qed
    then obtain r' b' where bal: "balance (Node l v b' r') = Inr t'" and r': "ordered r'"
      "set (Node_iter r') = insert x (set (Node_iter r))" by blast
    from balance_values [OF bal] r' ord gt show ?thesis
      by (auto simp: ordered_Node)
  qed
qed

lemma Node_insert_present:
  "ordered t \<Longrightarrow> x \<in> set (Node_iter t) \<Longrightarrow> Node_insert x t = Inl (RuntimeError, t)"
proof (induction t)
  case Absent
  then show ?case by simp
next
  case (Node l v b r)
  from Node.prems(1) have ord: "ordered l" "ordered r" "\<forall>y \<in> set (Node_iter l). y < v"
    "\<forall>y \<in> set (Node_iter r). v < y"
    by (simp_all add: ordered_Node)
  consider (eq) "x = v" | (lt) "x < v" | (gt) "x > v" by (metis neqE)
  then show ?case
  proof cases
    case eq
    then show ?thesis by simp
  next
    case lt
    with ord(4) Node.prems(2) have mem: "x \<in> set (Node_iter l)" by auto
    then obtain ll lv lb lr where l: "l = Node ll lv lb lr" by (cases l) auto
    from Node.IH(1) [OF ord(1) mem] lt l show ?thesis by simp
  next
    case gt
    with ord(3) Node.prems(2) have mem: "x \<in> set (Node_iter r)" by auto
    then obtain rl rv rb rr where r: "r = Node rl rv rb rr" by (cases r) auto
    from gt have "\<not> x < v" "x \<noteq> v" by auto
    with Node.IH(2) [OF ord(2) mem] gt r show ?thesis by simp
  qed
qed

lemma Node_delete_absent:
  "ordered t \<Longrightarrow> t \<noteq> Absent \<Longrightarrow> x \<notin> set (Node_iter t) \<Longrightarrow>
   Node_delete x t = Inl (RuntimeError, t)"
proof (induction t)
  case Absent
  then show ?case by simp
next
  case (Node l v b r)
  from Node.prems(1) have ord: "ordered l" "ordered r"
    by (simp_all add: ordered_Node)
  from Node.prems(3) have nm: "x \<noteq> v" "x \<notin> set (Node_iter l)" "x \<notin> set (Node_iter r)"
    by auto
  show ?case
  proof (cases "x < v")
    case True
    show ?thesis
    proof (cases l)
      case Absent
      with True show ?thesis by simp
    next
      case Nd: (Node ll lv lb lr)
      with Node.IH(1) ord(1) nm(2) have "Node_delete x l = Inl (RuntimeError, l)" by simp
      with True Nd show ?thesis by simp
    qed
  next
    case False
    with nm(1) have gt: "x > v" by simp
    show ?thesis
    proof (cases r)
      case Absent
      with False gt show ?thesis by simp
    next
      case Nd: (Node rl rv rb rr)
      with Node.IH(2) ord(2) nm(3) have "Node_delete x r = Inl (RuntimeError, r)" by simp
      with False gt Nd show ?thesis by simp
    qed
  qed
qed

lemma Node_delete_values:
  "ordered t \<Longrightarrow> Node_delete x t = Inr t' \<Longrightarrow>
   ordered t' \<and> set (Node_iter t') = set (Node_iter t) - {x}"
proof (induction t arbitrary: x t')
  case Absent
  then show ?case by simp
next
  case (Node l v b r)
  from Node.prems(1) have ord: "ordered l" "ordered r" "\<forall>y \<in> set (Node_iter l). y < v"
    "\<forall>y \<in> set (Node_iter r). v < y"
    by (simp_all add: ordered_Node)
  consider (lt) "x < v" | (gt) "x > v" | (eq) "x = v" by (metis neqE)
  then show ?case
  proof cases
    case lt
    from lt Node.prems(2) obtain ll lv lb lr where l: "l = Node ll lv lb lr"
      by (cases l) auto
    from lt Node.prems(2) l obtain l' where l': "Node_delete x l = Inr l'"
      by (cases "Node_delete x l") auto
    from Node.IH(1) [OF ord(1) l'] have vl: "ordered l'"
      "set (Node_iter l') = set (Node_iter l) - {x}" by simp_all
    from lt Node.prems(2) l l' have "\<exists>b'. balance (Node l' v b' r) = Inr t'"
      by (auto split: if_splits)
    then obtain b' where "balance (Node l' v b' r) = Inr t'" ..
    from balance_values [OF this] vl ord lt show ?thesis
      by (auto simp: ordered_Node)
  next
    case gt
    then have ng: "\<not> x < v" by simp
    from gt ng Node.prems(2) obtain rl rv rb rr where r: "r = Node rl rv rb rr"
      by (cases r) auto
    from gt ng Node.prems(2) r obtain r' where r': "Node_delete x r = Inr r'"
      by (cases "Node_delete x r") auto
    from Node.IH(2) [OF ord(2) r'] have vr: "ordered r'"
      "set (Node_iter r') = set (Node_iter r) - {x}" by simp_all
    from gt ng Node.prems(2) r r' have "\<exists>b'. balance (Node l v b' r') = Inr t'"
      by (auto split: if_splits)
    then obtain b' where "balance (Node l v b' r') = Inr t'" ..
    from balance_values [OF this] vr ord gt show ?thesis
      by (auto simp: ordered_Node)
  next
    case eq
    have nl: "v \<notin> set (Node_iter l)" and nr: "v \<notin> set (Node_iter r)"
      using ord(3,4) by auto
    show ?thesis
    proof (cases l)
      case Absent
      with eq Node.prems(2) have "t' = r" by simp
      with ord(2) nr eq Absent show ?thesis by auto
    next
      case Nl: (Node ll lv lb lr)
      show ?thesis
      proof (cases r)
        case Absent
        with eq Node.prems(2) Nl have "t' = l" by simp
        with ord(1) nl eq Absent show ?thesis by auto
      next
        case Nr: (Node rl rv rb rr)
        from find_max_ordered [OF ord(1)] Nl obtain m where
          m: "find_max l = Inr m" "m \<in> set (Node_iter l)" "\<forall>y \<in> set (Node_iter l). y \<le> m"
          by auto
        from eq Node.prems(2) Nl Nr m(1) obtain l' where l': "Node_delete m l = Inr l'"
          by (cases "Node_delete m l") auto
        from Node.IH(1) [OF ord(1) l'] have vl: "ordered l'"
          "set (Node_iter l') = set (Node_iter l) - {m}" by simp_all
        from eq Node.prems(2) Nl Nr m(1) l' have "\<exists>b'. balance (Node l' m b' r) = Inr t'"
          by (auto split: if_splits)
        then obtain b' where bal: "balance (Node l' m b' r) = Inr t'" ..
        from m(2) ord(3) have mv: "m < v" by blast
        have "\<forall>y \<in> set (Node_iter l'). y < m" using vl(2) m(3) by fastforce
        moreover have "\<forall>y \<in> set (Node_iter r). m < y" using ord(4) mv by fastforce
        ultimately have "ordered (Node l' m b' r)" using vl(1) ord(2) by (simp add: ordered_Node)
        moreover have "insert m (set (Node_iter l') \<union> set (Node_iter r)) =
            set (Node_iter (Node l v b r)) - {x}"
          using vl(2) m(2) nl nr eq by auto
        ultimately show ?thesis using balance_values [OF bal] by simp
      qed
    qed
  qed
qed

subsection \<open>Deletion: the main induction\<close>

lemma height_Node_ge: "0 \<le> height (Node l v b r)"
  using height_ge [of l] by simp

lemma height_neg_iff: "height t = -1 \<longleftrightarrow> t = Absent"
proof (cases t)
  case Absent
  then show ?thesis by simp
next
  case (Node l v b r)
  with height_Node_ge [of l v b r] show ?thesis by simp
qed

lemma balanced_height0:
  assumes "balanced t" "height t = 0"
  shows "\<exists>x. t = Node Absent x 0 Absent"
proof (cases t)
  case Absent
  with assms show ?thesis by simp
next
  case (Node l v b r)
  with assms height_ge [of l] height_ge [of r] have "height l = -1" "height r = -1" "b = 0"
    by (auto simp: balanced_Node)
  with Node show ?thesis by (simp add: height_neg_iff)
qed

lemma delete_only_child:
  assumes "balanced (Node Absent v b r)"
  shows "height r = height (Node Absent v b r) - (if shrank b r then 1 else 0)"
proof (cases r)
  case Absent
  then show ?thesis by simp
next
  case (Node rl rv rb rr)
  with assms height_Node_ge [of rl rv rb rr] have "height r = 0" "b = 1" "balanced r"
    by (auto simp: balanced_Node)
  with balanced_height0 [of r] show ?thesis by auto
qed

lemma delete_only_child':
  assumes "balanced (Node l v b Absent)"
  shows "height l = height (Node l v b Absent) - (if shrank b l then 1 else 0)"
proof (cases l)
  case Absent
  then show ?thesis by simp
next
  case (Node rl rv rb rr)
  with assms height_Node_ge [of rl rv rb rr] have "height l = 0" "b = -1" "balanced l"
    by (auto simp: balanced_Node)
  with balanced_height0 [of l] show ?thesis by auto
qed

lemma Node_delete_balanced:
  "balanced t \<Longrightarrow> ordered t \<Longrightarrow> x \<in> set (Node_iter t) \<Longrightarrow>
   \<exists>t'. Node_delete x t = Inr t' \<and> balanced t' \<and>
        height t' = height t - (if shrank (root_bf t) t' then 1 else 0)"
proof (induction t arbitrary: x)
  case Absent
  then show ?case by simp
next
  case (Node l v b r)
  note bal = Node.prems(1)
  then have bl: "balanced l" and br: "balanced r" by (auto simp: balanced_Node)
  from Node.prems(2) have ord: "ordered l" "ordered r" "\<forall>y \<in> set (Node_iter l). y < v"
    "\<forall>y \<in> set (Node_iter r). v < y"
    by (simp_all add: ordered_Node)
  consider (lt) "x < v" | (gt) "x > v" | (eq) "x = v" by (metis neqE)
  then show ?case
  proof cases
    case lt
    with ord(4) Node.prems(3) have mem: "x \<in> set (Node_iter l)" by auto
    then obtain ll lv lb lr where l: "l = Node ll lv lb lr" by (cases l) auto
    from Node.IH(1) [OF bl ord(1) mem] l obtain l' where
      l': "Node_delete x l = Inr l'" "balanced l'"
      "height l' = height l - (if shrank lb l' then 1 else 0)" by auto
    have unfold: "Node_delete x (Node l v b r) =
        balance (Node l' v (if shrank lb l' then b + 1 else b) r)"
      using lt l l'(1) by (simp split del: if_split)
    from delete_left_step [OF bal l'(2,3), of v] show ?thesis
      unfolding unfold root_bf.simps by blast
  next
    case gt
    then have ng: "\<not> x < v" by simp
    from gt ord(3) Node.prems(3) have mem: "x \<in> set (Node_iter r)" by auto
    then obtain rl rv rb rr where r: "r = Node rl rv rb rr" by (cases r) auto
    from Node.IH(2) [OF br ord(2) mem] r obtain r' where
      r': "Node_delete x r = Inr r'" "balanced r'"
      "height r' = height r - (if shrank rb r' then 1 else 0)" by auto
    have unfold: "Node_delete x (Node l v b r) =
        balance (Node l v (if shrank rb r' then b - 1 else b) r')"
      using gt ng r r'(1) by (simp split del: if_split)
    from delete_right_step [OF bal r'(2,3), of v] show ?thesis
      unfolding unfold root_bf.simps by blast
  next
    case eq
    show ?thesis
    proof (cases l)
      case Absent
      with eq have "Node_delete x (Node l v b r) = Inr r" by simp
      with delete_only_child [of v b r] bal br Absent show ?thesis by simp
    next
      case Nl: (Node ll lv lb lr)
      show ?thesis
      proof (cases r)
        case Absent
        with eq Nl have "Node_delete x (Node l v b r) = Inr l" by simp
        with delete_only_child' [of l v b] bal bl Absent show ?thesis by simp
      next
        case Nr: (Node rl rv rb rr)
        from find_max_ordered [OF ord(1)] Nl obtain m where
          m: "find_max l = Inr m" "m \<in> set (Node_iter l)" by auto
        from Node.IH(1) [OF bl ord(1) m(2)] Nl obtain l' where
          l': "Node_delete m l = Inr l'" "balanced l'"
          "height l' = height l - (if shrank lb l' then 1 else 0)" by auto
        have unfold: "Node_delete x (Node l v b r) =
            balance (Node l' m (if shrank lb l' then b + 1 else b) r)"
          using eq Nl Nr m(1) l'(1) by (simp split del: if_split)
        from delete_left_step [OF bal l'(2,3), of m] show ?thesis
          unfolding unfold root_bf.simps by blast
      qed
    qed
  qed
qed

subsection \<open>The container methods\<close>

lemma BSTree_iter_eq: "BSTree_iter t = Node_iter t"
  by (cases t) (simp_all add: BSTree_iter_def)

lemma Node_reversed_rev: "Node_reversed t = rev (Node_iter t)"
  by (induction t) simp_all

lemma BSTree_reversed_eq: "BSTree_reversed t = rev (Node_iter t)"
  by (cases t) (simp_all add: BSTree_reversed_def Node_reversed_rev)

lemma Node_len_length: "Node_len t = length (Node_iter t)"
  by (induction t) simp_all

lemma BSTree_len_eq: "BSTree_len t = length (Node_iter t)"
  by (cases t) (simp_all add: BSTree_len_def Node_len_length)

lemma BSTree_insert_None: "BSTree_insert None t = (False, t)"
  by (simp add: BSTree_insert_def)

lemma BSTree_delete_None: "BSTree_delete None t = (False, t)"
  by (simp add: BSTree_delete_def)

lemma BSTree_insert_present:
  assumes "ordered t" "x \<in> set (Node_iter t)"
  shows "BSTree_insert (Some x) t = (False, t)"
proof -
  from assms(2) obtain l v b r where t: "t = Node l v b r" by (cases t) auto
  from Node_insert_present [OF assms] have "Node_insert x t = Inl (RuntimeError, t)" .
  then show ?thesis unfolding BSTree_insert_def t by simp
qed

lemma BSTree_insert_new:
  assumes "ordered t" "balanced t" "x \<notin> set (Node_iter t)"
  shows "\<exists>t'. BSTree_insert (Some x) t = (True, t') \<and> ordered t' \<and> balanced t' \<and>
           set (Node_iter t') = insert x (set (Node_iter t))"
proof (cases t)
  case Absent
  then show ?thesis
    by (simp add: BSTree_insert_def ordered_def balanced_leaf)
next
  case (Node l v b r)
  with Node_insert_balanced [OF assms(2), of x] assms(3) obtain t' where
    t': "Node_insert x t = Inr t'" "balanced t'" by auto
  from Node_insert_values [OF assms(1) t'(1)] have "ordered t'"
    "set (Node_iter t') = insert x (set (Node_iter t))" by simp_all
  moreover from t'(1) have "BSTree_insert (Some x) t = (True, t')"
    unfolding BSTree_insert_def Node by simp
  ultimately show ?thesis using t'(2) by blast
qed

lemma BSTree_delete_absent:
  assumes "ordered t" "x \<notin> set (Node_iter t)"
  shows "BSTree_delete (Some x) t = (False, t)"
proof (cases t)
  case Absent
  then show ?thesis by (simp add: BSTree_delete_def)
next
  case (Node l v b r)
  with Node_delete_absent [OF assms(1) _ assms(2)] have "Node_delete x t = Inl (RuntimeError, t)"
    by simp
  then show ?thesis unfolding BSTree_delete_def Node by simp
qed

lemma BSTree_delete_present:
  assumes "ordered t" "balanced t" "x \<in> set (Node_iter t)"
  shows "\<exists>t'. BSTree_delete (Some x) t = (True, t') \<and> ordered t' \<and> balanced t' \<and>
           set (Node_iter t') = set (Node_iter t) - {x}"
proof -
  from assms(3) obtain l v b r where t: "t = Node l v b r" by (cases t) auto
  from Node_delete_balanced [OF assms(2,1,3)] obtain t' where
    t': "Node_delete x t = Inr t'" "balanced t'" by blast
  from Node_delete_values [OF assms(1) t'(1)] have "ordered t'"
    "set (Node_iter t') = set (Node_iter t) - {x}" by simp_all
  moreover from t'(1) have "BSTree_delete (Some x) t = (True, t')"
    unfolding BSTree_delete_def t by simp
  ultimately show ?thesis using t'(2) by blast
qed

lemma run_call_inv:
  assumes "ordered t" "balanced t"
  shows "ordered (run_call c t) \<and> balanced (run_call c t) \<and>
         set (Node_iter (run_call c t)) = apply_call c (set (Node_iter t))"
proof (cases c)
  case (Insert val)
  show ?thesis
  proof (cases val)
    case None
    then have "run_call c t = t" "apply_call c (set (Node_iter t)) = set (Node_iter t)"
      unfolding Insert by (simp_all add: BSTree_insert_None)
    with assms show ?thesis by simp
  next
    case (Some x)
    have ap: "apply_call c (set (Node_iter t)) = insert x (set (Node_iter t))"
      unfolding Insert Some by simp
    have rc: "run_call c t = snd (BSTree_insert (Some x) t)"
      unfolding Insert Some by simp
    show ?thesis
    proof (cases "x \<in> set (Node_iter t)")
      case True
      from BSTree_insert_present [OF assms(1) True] have "run_call c t = t"
        unfolding rc by simp
      with assms True show ?thesis unfolding ap by (simp add: insert_absorb)
    next
      case False
      from BSTree_insert_new [OF assms False] obtain t' where
        t': "BSTree_insert (Some x) t = (True, t')" "ordered t'" "balanced t'"
        "set (Node_iter t') = insert x (set (Node_iter t))" by blast
      from t'(1) have "run_call c t = t'" unfolding rc by simp
      with t'(2-4) show ?thesis unfolding ap by simp
    qed
  qed
next
  case (Delete val)
  show ?thesis
  proof (cases val)
    case None
    then have "run_call c t = t" "apply_call c (set (Node_iter t)) = set (Node_iter t)"
      unfolding Delete by (simp_all add: BSTree_delete_None)
    with assms show ?thesis by simp
  next
    case (Some x)
    have ap: "apply_call c (set (Node_iter t)) = set (Node_iter t) - {x}"
      unfolding Delete Some by simp
    have rc: "run_call c t = snd (BSTree_delete (Some x) t)"
      unfolding Delete Some by simp
    show ?thesis
    proof (cases "x \<in> set (Node_iter t)")
      case False
      from BSTree_delete_absent [OF assms(1) False] have "run_call c t = t"
        unfolding rc by simp
      with assms False show ?thesis unfolding ap by simp
    next
      case True
      from BSTree_delete_present [OF assms True] obtain t' where
        t': "BSTree_delete (Some x) t = (True, t')" "ordered t'" "balanced t'"
        "set (Node_iter t') = set (Node_iter t) - {x}" by blast
      from t'(1) have "run_call c t = t'" unfolding rc by simp
      with t'(2-4) show ?thesis unfolding ap by simp
    qed
  qed
qed

lemma built_snoc: "built (cs @ [c]) = run_call c (built cs)"
  by (simp add: built_def)

lemma values_after_snoc: "values_after (cs @ [c]) = apply_call c (values_after cs)"
  by (simp add: values_after_def)

lemma built_inv:
  "ordered (built cs) \<and> balanced (built cs) \<and> set (Node_iter (built cs)) = values_after cs"
proof (induction cs rule: rev_induct)
  case Nil
  show ?case
    by (simp add: built_def BSTree_init_def values_after_def ordered_def balanced_Absent)
next
  case (snoc c cs)
  then show ?case
    using run_call_inv [of "built cs" c] by (simp add: built_snoc values_after_snoc)
qed

lemma init_loop_foldl:
  "init_loop vals t = foldl (\<lambda>root c. run_call c root) t (map Insert vals)"
  by (induction vals arbitrary: t) simp_all

lemma BSTree_init_built: "BSTree_init (Some vals) = built (map Insert vals)"
  by (simp add: BSTree_init_def built_def init_loop_foldl)

lemma values_after_inserts_aux:
  "foldl (\<lambda>S c. apply_call c S) S (map Insert vals) = S \<union> {x. Some x \<in> set vals}"
proof (induction vals arbitrary: S)
  case Nil
  show ?case by simp
next
  case (Cons a vals)
  show ?case by (cases a) (auto simp: Cons.IH)
qed

lemma values_after_inserts: "values_after (map Insert vals) = {x. Some x \<in> set vals}"
  by (simp add: values_after_def values_after_inserts_aux)

lemma contains_loop_ordered: "ordered t \<Longrightarrow> contains_loop x t \<longleftrightarrow> x \<in> set (Node_iter t)"
proof (induction t)
  case Absent
  show ?case by simp
next
  case (Node l v b r)
  from Node.prems have ord: "ordered l" "ordered r" "\<forall>y \<in> set (Node_iter l). y < v"
    "\<forall>y \<in> set (Node_iter r). v < y"
    by (simp_all add: ordered_Node)
  consider (lt) "x < v" | (gt) "x > v" | (eq) "x = v" by (metis neqE)
  then show ?case
  proof cases
    case lt
    with ord(4) have "x \<notin> set (Node_iter r)" by auto
    with lt Node.IH(1) [OF ord(1)] show ?thesis by auto
  next
    case gt
    with ord(3) have "x \<notin> set (Node_iter l)" by auto
    with gt Node.IH(2) [OF ord(2)] show ?thesis by auto
  next
    case eq
    then show ?thesis by simp
  qed
qed

lemma getitem_loop_forward:
  "0 \<le> pos \<Longrightarrow> i \<le> pos \<Longrightarrow>
   getitem_loop pos i vs =
     (if pos - i < int (length vs) then Inr (vs ! nat (pos - i)) else Inl IndexError)"
proof (induction vs arbitrary: i)
  case Nil
  then show ?case by simp
next
  case (Cons v vs)
  show ?case
  proof (cases "i = pos")
    case True
    with Cons.prems show ?thesis by simp
  next
    case False
    with Cons.prems have lt: "i + 1 \<le> pos" by simp
    from lt have "nat (pos - i) = Suc (nat (pos - (i + 1)))" by simp
    with Cons.IH [OF Cons.prems(1) lt] False Cons.prems show ?thesis by auto
  qed
qed

lemma getitem_loop_backward:
  "pos < 0 \<Longrightarrow> 0 \<le> i \<Longrightarrow> i \<le> - pos - 1 \<Longrightarrow>
   getitem_loop pos i vs =
     (if - pos - 1 - i < int (length vs) then Inr (vs ! nat (- pos - 1 - i)) else Inl IndexError)"
proof (induction vs arbitrary: i)
  case Nil
  then show ?case by simp
next
  case (Cons v vs)
  show ?case
  proof (cases "i = - pos - 1")
    case True
    with Cons.prems show ?thesis by simp
  next
    case False
    with Cons.prems have lt: "i + 1 \<le> - pos - 1" "0 \<le> i + 1" by simp_all
    from lt have "nat (- pos - 1 - i) = Suc (nat (- pos - 1 - (i + 1)))" by simp
    with Cons.IH [OF Cons.prems(1) lt(2,1)] False Cons.prems show ?thesis by auto
  qed
qed

lemma strict_sorted_unique:
  "sorted_wrt (<) xs \<Longrightarrow> sorted_wrt (<) ys \<Longrightarrow> set xs = set ys \<Longrightarrow> xs = (ys :: 'a::linorder list)"
  by (simp add: strict_sorted_equal)

lemma built_iter_sorted: "sorted_wrt (<) (Node_iter (built cs))"
  using built_inv [of cs] by (simp add: ordered_def)

lemma built_iter_set: "set (Node_iter (built cs)) = values_after cs"
  using built_inv [of cs] by simp

lemma balance_total:
  assumes "bf_exact t" "t \<noteq> Absent"
  shows "\<exists>t'. balance t = Inr t'"
proof -
  from assms(2) obtain l v b r where t: "t = Node l v b r" by (cases t) auto
  consider (left) "b < -1" | (right) "b > 1" | (none) "\<not> b < -1" "\<not> b > 1" by linarith
  then show ?thesis
  proof cases
    case left
    with assms(1) t height_ge [of r] obtain ll lv lb lr where l: "l = Node ll lv lb lr"
      by (cases l) auto
    show ?thesis
    proof (cases "lb \<le> 0")
      case True
      with left t l show ?thesis by (simp add: balance.simps Let_def)
    next
      case False
      with assms(1) t l height_ge [of ll] obtain a x c d where lr: "lr = Node a x c d"
        by (cases lr) auto
      with False left t l show ?thesis by (simp add: balance.simps Let_def)
    qed
  next
    case right
    with assms(1) t height_ge [of l] obtain rl rv rb rr where r: "r = Node rl rv rb rr"
      by (cases r) auto
    show ?thesis
    proof (cases "rb \<ge> 0")
      case True
      with right t r show ?thesis by (simp add: balance.simps Let_def)
    next
      case False
      with assms(1) t r height_ge [of rr] obtain a x c d where rl: "rl = Node a x c d"
        by (cases rl) auto
      with False right t r show ?thesis by (simp add: balance.simps Let_def)
    qed
  next
    case none
    with t show ?thesis by (simp add: balance.simps)
  qed
qed

lemma built_ordered: "ordered (built cs)"
  using built_inv [of cs] by simp

lemma built_balanced: "balanced (built cs)"
  using built_inv [of cs] by simp

lemma getitem_loop_error: "getitem_loop pos i vs = Inl e \<Longrightarrow> e = IndexError"
  by (induction vs arbitrary: i) (auto split: if_splits)

lemma getitem_loop_member: "getitem_loop pos i vs = Inr x \<Longrightarrow> x \<in> set vs"
  by (induction vs arbitrary: i) (auto split: if_splits)

lemma BSTree_getitem_member: "BSTree_getitem pos t = Inr x \<Longrightarrow> x \<in> set (Node_iter t)"
  unfolding BSTree_getitem_def BSTree_iter_eq BSTree_reversed_eq
  by (auto dest: getitem_loop_member split: if_splits)

lemma BSTree_insert_cases:
  assumes "ordered t" "balanced t"
  shows "(\<not> fst (BSTree_insert val t) \<longrightarrow> snd (BSTree_insert val t) = t) \<and>
         ordered (snd (BSTree_insert val t)) \<and> balanced (snd (BSTree_insert val t))"
proof (cases val)
  case None
  with assms show ?thesis by (simp add: BSTree_insert_None)
next
  case (Some x)
  show ?thesis
  proof (cases "x \<in> set (Node_iter t)")
    case True
    from BSTree_insert_present [OF assms(1) True] assms show ?thesis
      unfolding Some by simp
  next
    case False
    from BSTree_insert_new [OF assms False] obtain t' where
      "BSTree_insert (Some x) t = (True, t')" "ordered t'" "balanced t'" by blast
    then show ?thesis unfolding Some by simp
  qed
qed

lemma BSTree_delete_cases:
  assumes "ordered t" "balanced t"
  shows "(\<not> fst (BSTree_delete val t) \<longrightarrow> snd (BSTree_delete val t) = t) \<and>
         ordered (snd (BSTree_delete val t)) \<and> balanced (snd (BSTree_delete val t))"
proof (cases val)
  case None
  with assms show ?thesis by (simp add: BSTree_delete_None)
next
  case (Some x)
  show ?thesis
  proof (cases "x \<in> set (Node_iter t)")
    case False
    from BSTree_delete_absent [OF assms(1) False] assms show ?thesis
      unfolding Some by simp
  next
    case True
    from BSTree_delete_present [OF assms True] obtain t' where
      "BSTree_delete (Some x) t = (True, t')" "ordered t'" "balanced t'" by blast
    then show ?thesis unfolding Some by simp
  qed
qed

lemma BSTree_setitem_valid:
  assumes "ordered t" "balanced t" "BSTree_getitem pos t = Inr old"
  shows "\<exists>t'. BSTree_setitem pos (Some x) t = (None, t') \<and> ordered t' \<and> balanced t' \<and>
           set (Node_iter t') = insert x (set (Node_iter t) - {old})"
proof -
  from assms(3) have "old \<in> set (Node_iter t)" by (rule BSTree_getitem_member)
  from BSTree_delete_present [OF assms(1,2) this] obtain t1 where
    t1: "BSTree_delete (Some old) t = (True, t1)" "ordered t1" "balanced t1"
    "set (Node_iter t1) = set (Node_iter t) - {old}" by blast
  have "\<exists>t'. BSTree_insert (Some x) t1 = (fst (BSTree_insert (Some x) t1), t') \<and> ordered t' \<and>
      balanced t' \<and> set (Node_iter t') = insert x (set (Node_iter t1))"
  proof (cases "x \<in> set (Node_iter t1)")
    case True
    from BSTree_insert_present [OF t1(2) True] t1(2,3) True show ?thesis
      by (simp add: insert_absorb)
  next
    case False
    from BSTree_insert_new [OF t1(2,3) False] obtain t' where
      "BSTree_insert (Some x) t1 = (True, t')" "ordered t'" "balanced t'"
      "set (Node_iter t') = insert x (set (Node_iter t1))" by blast
    then show ?thesis by simp
  qed
  then obtain t' where t': "snd (BSTree_insert (Some x) t1) = t'" "ordered t'" "balanced t'"
    "set (Node_iter t') = insert x (set (Node_iter t1))"
    by (metis snd_conv)
  from assms(3) t1(1) t'(1) have "BSTree_setitem pos (Some x) t = (None, t')"
    by (simp add: BSTree_setitem_def)
  with t'(2-4) t1(4) show ?thesis by simp
qed

section \<open>Verified properties\<close>

text \<open>
  C1. Building a tree from a list of pairwise distinct (non-\<open>None\<close>) values and collecting
  the forward in-order iteration gives the sorted list, whatever the order of the input.
  For the tree after any sequence of \<open>insert\<close> and \<open>delete\<close> calls, the iteration is
  strictly ascending and its values are exactly the set the calls describe.
\<close>

theorem inorder_ascending:
  "(distinct xs \<longrightarrow> BSTree_iter (BSTree_init (Some (map Some xs))) = sort xs) \<and>
   sorted_wrt (<) (BSTree_iter (built cs)) \<and>
   set (BSTree_iter (built cs)) = values_after cs"
proof (intro conjI impI)
  assume d: "distinct xs"
  let ?ys = "Node_iter (built (map Insert (map Some xs)))"
  have "values_after (map Insert (map Some xs)) = set xs"
    using values_after_inserts [of "map Some xs"] by auto
  then have "set ?ys = set xs"
    by (simp only: built_iter_set)
  moreover have "sorted_wrt (<) ?ys" by (rule built_iter_sorted)
  moreover from d have "sorted_wrt (<) (sort xs)"
    by (simp add: strict_sorted_iff)
  ultimately have "?ys = sort xs"
    by (intro strict_sorted_unique) simp_all
  then show "BSTree_iter (BSTree_init (Some (map Some xs))) = sort xs"
    by (simp only: BSTree_iter_eq BSTree_init_built)
next
  show "sorted_wrt (<) (BSTree_iter (built cs))"
    by (simp add: BSTree_iter_eq built_iter_sorted)
next
  show "set (BSTree_iter (built cs)) = values_after cs"
    by (simp add: BSTree_iter_eq built_iter_set)
qed

theorem inorder_ascending_witness:
  "distinct [5, 3, 8, 1, 4 :: int] \<and>
   BSTree_iter (BSTree_init (Some (map Some [5, 3, 8, 1, 4 :: int]))) = [1, 3, 4, 5, 8] \<and>
   BSTree_iter (built [Insert (Some (2::int)), Insert (Some 1), Delete (Some 2), Insert (Some 0)])
     = [0, 1]"
proof -
  have d: "distinct [5, 3, 8, 1, 4 :: int]" by simp
  have s: "sort [5, 3, 8, 1, 4 :: int] = [1, 3, 4, 5, 8]" by simp
  have v: "values_after [Insert (Some (2::int)), Insert (Some 1), Delete (Some 2), Insert (Some 0)]
      = {0, 1}"
    by (auto simp: values_after_def)
  note inst = inorder_ascending [of "[5, 3, 8, 1, 4 :: int]"
      "[Insert (Some (2::int)), Insert (Some 1), Delete (Some 2), Insert (Some 0)]"]
  from inst d s have
    "BSTree_iter (BSTree_init (Some (map Some [5, 3, 8, 1, 4 :: int]))) = [1, 3, 4, 5, 8]"
    by simp
  moreover from inst v have
    "BSTree_iter (built [Insert (Some (2::int)), Insert (Some 1), Delete (Some 2), Insert (Some 0)])
      = [0, 1]"
    by (intro strict_sorted_unique) auto
  ultimately show ?thesis using d by blast
qed

text \<open>
  C2. After any sequence of completed \<open>insert\<close> and \<open>delete\<close> calls on a new tree, the
  balance factor stored in every node equals the height of its right subtree minus the
  height of its left subtree, recomputed from scratch by \<open>height\<close> (an absent subtree
  has height \<open>-1\<close>), and lies between \<open>-1\<close> and \<open>1\<close>.
\<close>

theorem reachable_balance_factors:
  "bf_exact (built cs) \<and> bf_bounded (built cs)"
  using built_inv [of cs] by (simp add: balanced_def)

theorem reachable_balance_factors_witness:
  "built [Insert (Some (3::int)), Insert (Some 2), Insert (Some 1), Insert (Some 0), Delete (Some 3)]
     = Node (Node Absent 0 0 Absent) 1 0 (Node Absent 2 0 Absent) \<and>
   bf_exact (built [Insert (Some (3::int)), Insert (Some 2), Insert (Some 1), Insert (Some 0), Delete (Some 3)]) \<and>
   bf_bounded (built [Insert (Some (3::int)), Insert (Some 2), Insert (Some 1), Insert (Some 0), Delete (Some 3)])"
proof -
  have "built [Insert (Some (3::int)), Insert (Some 2), Insert (Some 1), Insert (Some 0), Delete (Some 3)]
     = Node (Node Absent 0 0 Absent) 1 0 (Node Absent 2 0 Absent)"
    by code_simp
  with reachable_balance_factors
    [of "[Insert (Some (3::int)), Insert (Some 2), Insert (Some 1), Insert (Some 0), Delete (Some 3)]"]
  show ?thesis by simp
qed

text \<open>
  C3. On a node whose stored balance factors are the true height differences,
  \<open>rotate_left\<close> (right child present) and \<open>rotate_right\<close> (left child present) return
  a subtree with the same in-order sequence; the two new balance factors are computed
  from the old ones alone, by \<open>max\<close> and \<open>min\<close> against 0, and are again the true height
  differences of the two re-linked nodes, so the whole result is exact. Without the
  required child the rotation raises \<open>ValueError\<close> and leaves the node as it was.
  \<open>balance\<close> on a node with exact balance factors never raises, so it never reaches
  that branch.
\<close>

theorem rotations_recompute_bf:
  "(bf_exact (Node l v b (Node rl rv rb rr)) \<longrightarrow>
      rotate_left (Node l v b (Node rl rv rb rr)) =
        Inr (Node (Node l v (b - (1 + max rb 0)) rl) rv
               (rb - (1 - min (b - (1 + max rb 0)) 0)) rr) \<and>
      Node_iter (Node (Node l v (b - (1 + max rb 0)) rl) rv
               (rb - (1 - min (b - (1 + max rb 0)) 0)) rr) =
        Node_iter (Node l v b (Node rl rv rb rr)) \<and>
      b - (1 + max rb 0) = height rl - height l \<and>
      rb - (1 - min (b - (1 + max rb 0)) 0) =
        height rr - height (Node l v (b - (1 + max rb 0)) rl) \<and>
      bf_exact (Node (Node l v (b - (1 + max rb 0)) rl) rv
               (rb - (1 - min (b - (1 + max rb 0)) 0)) rr)) \<and>
   (bf_exact (Node (Node ll lv lb lr) v b r) \<longrightarrow>
      rotate_right (Node (Node ll lv lb lr) v b r) =
        Inr (Node ll lv (lb + (1 + max (b + (1 - min lb 0)) 0))
               (Node lr v (b + (1 - min lb 0)) r)) \<and>
      Node_iter (Node ll lv (lb + (1 + max (b + (1 - min lb 0)) 0))
               (Node lr v (b + (1 - min lb 0)) r)) =
        Node_iter (Node (Node ll lv lb lr) v b r) \<and>
      b + (1 - min lb 0) = height r - height lr \<and>
      lb + (1 + max (b + (1 - min lb 0)) 0) =
        height (Node lr v (b + (1 - min lb 0)) r) - height ll \<and>
      bf_exact (Node ll lv (lb + (1 + max (b + (1 - min lb 0)) 0))
               (Node lr v (b + (1 - min lb 0)) r))) \<and>
   rotate_left (Node l v b Absent) = Inl (ValueError, Node l v b Absent) \<and>
   rotate_right (Node Absent v b r) = Inl (ValueError, Node Absent v b r) \<and>
   (bf_exact t \<and> t \<noteq> Absent \<longrightarrow> (\<exists>t'. balance t = Inr t'))"
proof (intro conjI impI)
  assume e: "bf_exact (Node l v b (Node rl rv rb rr))"
  then have b: "b = max (height rl) (height rr) + 1 - height l" "rb = height rr - height rl"
    and sub: "bf_exact l" "bf_exact rl" "bf_exact rr"
    by simp_all
  show l1: "b - (1 + max rb 0) = height rl - height l" using b by simp
  show l2: "rb - (1 - min (b - (1 + max rb 0)) 0) =
        height rr - height (Node l v (b - (1 + max rb 0)) rl)"
    using b by simp
  from l1 l2 sub show "bf_exact (Node (Node l v (b - (1 + max rb 0)) rl) rv
               (rb - (1 - min (b - (1 + max rb 0)) 0)) rr)"
    by simp
next
  assume e: "bf_exact (Node (Node ll lv lb lr) v b r)"
  then have b: "b = height r - (max (height ll) (height lr) + 1)" "lb = height lr - height ll"
    and sub: "bf_exact r" "bf_exact ll" "bf_exact lr"
    by simp_all
  show r1: "b + (1 - min lb 0) = height r - height lr" using b by simp
  show r2: "lb + (1 + max (b + (1 - min lb 0)) 0) =
        height (Node lr v (b + (1 - min lb 0)) r) - height ll"
    using b by simp
  from r1 r2 sub show "bf_exact (Node ll lv (lb + (1 + max (b + (1 - min lb 0)) 0))
               (Node lr v (b + (1 - min lb 0)) r))"
    by simp
next
  assume "bf_exact t \<and> t \<noteq> Absent"
  then show "\<exists>t'. balance t = Inr t'" by (simp add: balance_total)
qed (simp_all add: Let_def)

theorem rotations_recompute_bf_witness:
  "bf_exact (Node Absent (1::int) 2 (Node Absent 2 1 (Node Absent 3 0 Absent))) \<and>
   rotate_left (Node Absent (1::int) 2 (Node Absent 2 1 (Node Absent 3 0 Absent))) =
     Inr (Node (Node Absent 1 0 Absent) 2 0 (Node Absent 3 0 Absent)) \<and>
   bf_exact (Node (Node (Node Absent 1 0 Absent) 2 (-1) Absent) (3::int) (-2) Absent) \<and>
   rotate_right (Node (Node (Node Absent 1 0 Absent) 2 (-1) Absent) (3::int) (-2) Absent) =
     Inr (Node (Node Absent 1 0 Absent) 2 0 (Node Absent 3 0 Absent)) \<and>
   (\<exists>t'. balance (Node Absent (1::int) 2 (Node Absent 2 1 (Node Absent 3 0 Absent))) = Inr t')"
proof -
  have e1: "bf_exact (Node Absent (1::int) 2 (Node Absent 2 1 (Node Absent 3 0 Absent)))"
    and e2: "bf_exact (Node (Node (Node Absent 1 0 Absent) 2 (-1) Absent) (3::int) (-2) Absent)"
    by simp_all
  from rotations_recompute_bf [of Absent "1::int" 2 Absent 2 1 "Node Absent 3 0 Absent"
      "Node Absent 1 0 Absent" 2 "-1" Absent Absent
      "Node Absent (1::int) 2 (Node Absent 2 1 (Node Absent 3 0 Absent))"] e1
  have "rotate_left (Node Absent (1::int) 2 (Node Absent 2 1 (Node Absent 3 0 Absent))) =
     Inr (Node (Node Absent 1 0 Absent) 2 0 (Node Absent 3 0 Absent))"
    and "\<exists>t'. balance (Node Absent (1::int) 2 (Node Absent 2 1 (Node Absent 3 0 Absent))) = Inr t'"
    by simp_all
  moreover
  from rotations_recompute_bf [of Absent "3::int" "-2" Absent 2 1 Absent
      "Node Absent 1 0 Absent" 2 "-1" Absent Absent Absent] e2
  have "rotate_right (Node (Node (Node Absent 1 0 Absent) 2 (-1) Absent) (3::int) (-2) Absent) =
     Inr (Node (Node Absent 1 0 Absent) 2 0 (Node Absent 3 0 Absent))"
    by simp
  ultimately show ?thesis using e1 e2 by blast
qed

text \<open>
  C4, as stated, fails: \<open>__setitem__\<close> deletes the value of rank \<open>pos\<close> and then discards
  the result of \<open>insert\<close>. With the new value \<open>None\<close> on the valid index 0 of the tree
  holding 1 and 2, the call returns normally, the value 1 is gone and nothing took its
  place: the tree is neither unchanged nor has 1 been replaced.
\<close>

theorem setitem_None_counterexample:
  "built [Insert (Some (1::int)), Insert (Some 2)] = Node Absent 1 1 (Node Absent 2 0 Absent) \<and>
   BSTree_getitem 0 (Node Absent (1::int) 1 (Node Absent 2 0 Absent)) = Inr 1 \<and>
   BSTree_setitem 0 None (Node Absent (1::int) 1 (Node Absent 2 0 Absent)) =
     (None, Node Absent 2 0 Absent)"
  by code_simp

text \<open>
  C4, amended. On the tree after any sequence of \<open>insert\<close> and \<open>delete\<close> calls: an
  \<open>insert\<close> or \<open>delete\<close> that returns false leaves the tree as it was, and after either
  call, successful or not, the order and balance invariants hold; \<open>tree[pos] = val\<close>
  with an index out of range raises \<open>IndexError\<close> and leaves the tree as it was; with a
  valid index and a new value other than \<open>None\<close> it returns normally, the invariants
  hold, and the stored values are the old ones without the value of rank \<open>pos\<close>, plus
  the new value. (\<open>__getitem__\<close>, \<open>index\<close> and \<open>__contains__\<close> write no field of the tree;
  their models return a result and no state.)
\<close>

theorem failed_calls_change_nothing:
  assumes "t = built cs"
  shows "(\<not> fst (BSTree_insert val t) \<longrightarrow> snd (BSTree_insert val t) = t) \<and>
         ordered (snd (BSTree_insert val t)) \<and> balanced (snd (BSTree_insert val t)) \<and>
         (\<not> fst (BSTree_delete val t) \<longrightarrow> snd (BSTree_delete val t) = t) \<and>
         ordered (snd (BSTree_delete val t)) \<and> balanced (snd (BSTree_delete val t)) \<and>
         (\<forall>e. BSTree_getitem pos t = Inl e \<longrightarrow>
            e = IndexError \<and> BSTree_setitem pos val t = (Some IndexError, t)) \<and>
         (\<forall>old x. BSTree_getitem pos t = Inr old \<longrightarrow>
            (\<exists>t'. BSTree_setitem pos (Some x) t = (None, t') \<and> ordered t' \<and> balanced t' \<and>
               set (BSTree_iter t') = insert x (set (BSTree_iter t) - {old})))"
proof -
  from assms have ord: "ordered t" and bal: "balanced t"
    by (simp_all add: built_ordered built_balanced)
  have err: "e = IndexError \<and> BSTree_setitem pos val t = (Some IndexError, t)"
    if "BSTree_getitem pos t = Inl e" for e
  proof -
    from that have "e = IndexError"
      unfolding BSTree_getitem_def by (rule getitem_loop_error)
    with that show ?thesis by (simp add: BSTree_setitem_def)
  qed
  show ?thesis
    unfolding BSTree_iter_eq
    using BSTree_insert_cases [OF ord bal, of val] BSTree_delete_cases [OF ord bal, of val]
      err BSTree_setitem_valid [OF ord bal]
    by blast
qed

theorem failed_calls_change_nothing_witness:
  "built [Insert (Some (1::int)), Insert (Some 2)] = Node Absent 1 1 (Node Absent 2 0 Absent) \<and>
   snd (BSTree_insert (Some 2) (Node Absent (1::int) 1 (Node Absent 2 0 Absent))) =
     Node Absent 1 1 (Node Absent 2 0 Absent) \<and>
   snd (BSTree_delete (Some 5) (Node Absent (1::int) 1 (Node Absent 2 0 Absent))) =
     Node Absent 1 1 (Node Absent 2 0 Absent) \<and>
   BSTree_setitem 2 (Some 7) (Node Absent (1::int) 1 (Node Absent 2 0 Absent)) =
     (Some IndexError, Node Absent 1 1 (Node Absent 2 0 Absent)) \<and>
   (\<exists>t'. BSTree_setitem 0 (Some 7) (Node Absent (1::int) 1 (Node Absent 2 0 Absent)) = (None, t') \<and>
      set (BSTree_iter t') = {2, 7})"
proof -
  let ?t = "Node Absent (1::int) 1 (Node Absent 2 0 Absent)"
  have b: "?t = built [Insert (Some (1::int)), Insert (Some 2)]" by code_simp
  have f: "\<not> fst (BSTree_insert (Some 2) ?t)" "\<not> fst (BSTree_delete (Some 5) ?t)"
    "BSTree_getitem 2 ?t = Inl IndexError" "BSTree_getitem 0 ?t = Inr 1"
    "BSTree_iter ?t = [1, 2]"
    by code_simp+
  from failed_calls_change_nothing [OF b, of "Some 2" 2] f(1)
  have "snd (BSTree_insert (Some 2) ?t) = ?t" by blast
  moreover from failed_calls_change_nothing [OF b, of "Some 5" 2] f(2)
  have "snd (BSTree_delete (Some 5) ?t) = ?t" by blast
  moreover from failed_calls_change_nothing [OF b, of "Some 7" 2] f(3)
  have "BSTree_setitem 2 (Some 7) ?t = (Some IndexError, ?t)" by blast
  moreover from failed_calls_change_nothing [OF b, of "Some 7" 0] f(4)
  have "\<exists>t'. BSTree_setitem 0 (Some 7) ?t = (None, t') \<and> ordered t' \<and> balanced t' \<and>
               set (BSTree_iter t') = insert 7 (set (BSTree_iter ?t) - {1})" by blast
  then have "\<exists>t'. BSTree_setitem 0 (Some 7) ?t = (None, t') \<and> set (BSTree_iter t') = {2, 7}"
    unfolding f(5) by auto
  ultimately show ?thesis using b by simp
qed

text \<open>
  C5. On the tree after any sequence of \<open>insert\<close> and \<open>delete\<close> calls: \<open>insert\<close> returns false
  and leaves the tree identical when the value is \<open>None\<close> or already stored, and otherwise
  returns true and adds the value; \<open>delete\<close> returns false and leaves the tree identical
  when the value is \<open>None\<close> or not stored, and otherwise returns true and removes it.
  A second \<open>insert\<close> of the same value returns false and changes nothing.
\<close>

theorem insert_delete_results:
  assumes "t = built cs"
  shows "BSTree_insert None t = (False, t) \<and>
         BSTree_delete None t = (False, t) \<and>
         (x \<in> set (BSTree_iter t) \<longrightarrow> BSTree_insert (Some x) t = (False, t)) \<and>
         (x \<notin> set (BSTree_iter t) \<longrightarrow>
            fst (BSTree_insert (Some x) t) \<and>
            set (BSTree_iter (snd (BSTree_insert (Some x) t))) = insert x (set (BSTree_iter t))) \<and>
         (x \<notin> set (BSTree_iter t) \<longrightarrow> BSTree_delete (Some x) t = (False, t)) \<and>
         (x \<in> set (BSTree_iter t) \<longrightarrow>
            fst (BSTree_delete (Some x) t) \<and>
            set (BSTree_iter (snd (BSTree_delete (Some x) t))) = set (BSTree_iter t) - {x}) \<and>
         BSTree_insert (Some x) (snd (BSTree_insert (Some x) t)) =
           (False, snd (BSTree_insert (Some x) t))"
proof -
  from assms have ord: "ordered t" and bal: "balanced t"
    by (simp_all add: built_ordered built_balanced)
  have new: "fst (BSTree_insert (Some x) t) \<and> ordered (snd (BSTree_insert (Some x) t)) \<and>
      set (Node_iter (snd (BSTree_insert (Some x) t))) = insert x (set (Node_iter t))"
    if "x \<notin> set (Node_iter t)"
  proof -
    from BSTree_insert_new [OF ord bal that] obtain t' where
      "BSTree_insert (Some x) t = (True, t')" "ordered t'"
      "set (Node_iter t') = insert x (set (Node_iter t))" by blast
    then show ?thesis by simp
  qed
  have del: "fst (BSTree_delete (Some x) t) \<and>
      set (Node_iter (snd (BSTree_delete (Some x) t))) = set (Node_iter t) - {x}"
    if "x \<in> set (Node_iter t)"
  proof -
    from BSTree_delete_present [OF ord bal that] obtain t' where
      "BSTree_delete (Some x) t = (True, t')"
      "set (Node_iter t') = set (Node_iter t) - {x}" by blast
    then show ?thesis by simp
  qed
  have twice: "BSTree_insert (Some x) (snd (BSTree_insert (Some x) t)) =
           (False, snd (BSTree_insert (Some x) t))"
  proof (cases "x \<in> set (Node_iter t)")
    case True
    with BSTree_insert_present [OF ord True] show ?thesis by simp
  next
    case False
    from new [OF False] show ?thesis by (intro BSTree_insert_present) simp_all
  qed
  show ?thesis
    unfolding BSTree_iter_eq
    using new del twice BSTree_insert_present [OF ord] BSTree_delete_absent [OF ord]
    by (simp add: BSTree_insert_None BSTree_delete_None)
qed

theorem insert_delete_results_witness:
  "built [Insert (Some (2::int)), Insert (Some 1)] = Node (Node Absent 1 0 Absent) 2 (-1) Absent \<and>
   BSTree_insert (Some 2) (Node (Node Absent 1 0 Absent) (2::int) (-1) Absent) =
     (False, Node (Node Absent 1 0 Absent) 2 (-1) Absent) \<and>
   BSTree_delete (Some 3) (Node (Node Absent 1 0 Absent) (2::int) (-1) Absent) =
     (False, Node (Node Absent 1 0 Absent) 2 (-1) Absent) \<and>
   fst (BSTree_insert (Some 3) (Node (Node Absent 1 0 Absent) (2::int) (-1) Absent)) \<and>
   fst (BSTree_delete (Some 1) (Node (Node Absent 1 0 Absent) (2::int) (-1) Absent))"
proof -
  let ?t = "Node (Node Absent 1 0 Absent) (2::int) (-1) Absent"
  have b: "?t = built [Insert (Some (2::int)), Insert (Some 1)]" by code_simp
  have it: "BSTree_iter ?t = [1, 2]" by (simp add: BSTree_iter_def)
  from insert_delete_results [OF b, of 2] insert_delete_results [OF b, of 3]
    insert_delete_results [OF b, of 1] it b
  show ?thesis by simp
qed

text \<open>
  C6. On the tree after any sequence of \<open>insert\<close> and \<open>delete\<close> calls, inserting a value
  that is not stored and then deleting it succeeds twice and gives a tree with the
  value set (and so the in-order iteration) it had before.
\<close>

theorem insert_then_delete:
  assumes "t = built cs" "x \<notin> set (BSTree_iter t)"
  shows "fst (BSTree_insert (Some x) t) \<and>
         fst (BSTree_delete (Some x) (snd (BSTree_insert (Some x) t))) \<and>
         set (BSTree_iter (snd (BSTree_delete (Some x) (snd (BSTree_insert (Some x) t))))) =
           set (BSTree_iter t) \<and>
         BSTree_iter (snd (BSTree_delete (Some x) (snd (BSTree_insert (Some x) t)))) =
           BSTree_iter t"
proof -
  from assms(1) have ord: "ordered t" and bal: "balanced t"
    by (simp_all add: built_ordered built_balanced)
  from assms(2) have nm: "x \<notin> set (Node_iter t)" by (simp add: BSTree_iter_eq)
  from BSTree_insert_new [OF ord bal nm] obtain t1 where
    t1: "BSTree_insert (Some x) t = (True, t1)" "ordered t1" "balanced t1"
    "set (Node_iter t1) = insert x (set (Node_iter t))" by blast
  then have "x \<in> set (Node_iter t1)" by simp
  from BSTree_delete_present [OF t1(2,3) this] obtain t2 where
    t2: "BSTree_delete (Some x) t1 = (True, t2)" "ordered t2"
    "set (Node_iter t2) = set (Node_iter t1) - {x}" by blast
  from t2(3) t1(4) nm have s: "set (Node_iter t2) = set (Node_iter t)" by auto
  from t2(2) ord s have "Node_iter t2 = Node_iter t"
    unfolding ordered_def by (rule strict_sorted_unique)
  with s t1(1) t2(1) show ?thesis by (simp add: BSTree_iter_eq)
qed

theorem insert_then_delete_witness:
  "built [Insert (Some (2::int)), Insert (Some 1)] = Node (Node Absent 1 0 Absent) 2 (-1) Absent \<and>
   3 \<notin> set (BSTree_iter (Node (Node Absent 1 0 Absent) (2::int) (-1) Absent)) \<and>
   BSTree_iter (snd (BSTree_delete (Some 3)
     (snd (BSTree_insert (Some 3) (Node (Node Absent 1 0 Absent) (2::int) (-1) Absent))))) = [1, 2]"
proof -
  let ?t = "Node (Node Absent 1 0 Absent) (2::int) (-1) Absent"
  have b: "?t = built [Insert (Some (2::int)), Insert (Some 1)]" by code_simp
  have it: "BSTree_iter ?t = [1, 2]" by (simp add: BSTree_iter_def)
  then have nm: "3 \<notin> set (BSTree_iter ?t)" by simp
  from insert_then_delete [OF b nm] it b nm show ?thesis by simp
qed

text \<open>
  C7. On the tree after any sequence of \<open>insert\<close> and \<open>delete\<close> calls, the membership test
  for a comparable value returns normally (\<open>Inr\<close>), and returns true exactly when the
  value occurs in the in-order traversal. \<open>__contains__\<close> writes no field, so the model
  has no new state to return; the descent (\<open>contains_loop\<close>) only compares values.
\<close>

theorem contains_iff_member:
  "BSTree_contains (Some x) (built cs) = Inr (x \<in> set (BSTree_iter (built cs)))"
  using built_inv [of cs]
  by (simp add: BSTree_contains_def BSTree_iter_eq contains_loop_ordered)

theorem contains_iff_member_witness:
  "BSTree_contains (Some (4::int)) (built [Insert (Some 5), Insert (Some 4), Delete (Some 5)])
     = Inr True \<and>
   BSTree_contains (Some (5::int)) (built [Insert (Some 5), Insert (Some 4), Delete (Some 5)])
     = Inr False \<and>
   BSTree_iter (built [Insert (Some (5::int)), Insert (Some 4), Delete (Some 5)]) = [4]"
proof -
  have it: "BSTree_iter (built [Insert (Some (5::int)), Insert (Some 4), Delete (Some 5)]) = [4]"
    by code_simp
  from contains_iff_member [of 4 "[Insert (Some (5::int)), Insert (Some 4), Delete (Some 5)]"]
    contains_iff_member [of 5 "[Insert (Some (5::int)), Insert (Some 4), Delete (Some 5)]"] it
  show ?thesis by simp
qed

text \<open>
  C8. For any tree with \<open>n\<close> values: an index \<open>0 \<le> i < n\<close> returns the \<open>i\<close>-th value of the
  forward iteration; an index \<open>-n \<le> i < 0\<close> returns the value of rank \<open>n + i\<close>, which is
  the one at position \<open>-i - 1\<close> of the reverse iteration; every other index, and every
  index on the empty tree, raises \<open>IndexError\<close>.
\<close>

theorem getitem_rank:
  "(0 \<le> i \<and> i < int (BSTree_len t) \<longrightarrow> BSTree_getitem i t = Inr (BSTree_iter t ! nat i)) \<and>
   (- int (BSTree_len t) \<le> i \<and> i < 0 \<longrightarrow>
      BSTree_getitem i t = Inr (BSTree_iter t ! nat (int (BSTree_len t) + i)) \<and>
      BSTree_getitem i t = Inr (BSTree_reversed t ! nat (- i - 1))) \<and>
   (i < - int (BSTree_len t) \<or> int (BSTree_len t) \<le> i \<longrightarrow> BSTree_getitem i t = Inl IndexError)"
proof (cases "i < 0")
  case False
  then have "BSTree_getitem i t =
      (if i < int (length (Node_iter t)) then Inr (Node_iter t ! nat i) else Inl IndexError)"
    unfolding BSTree_getitem_def BSTree_iter_eq
    using getitem_loop_forward [of i 0 "Node_iter t"] by simp
  with False show ?thesis by (simp add: BSTree_len_eq BSTree_iter_eq)
next
  case True
  let ?n = "length (Node_iter t)"
  from True have g: "BSTree_getitem i t =
      (if - i - 1 < int ?n then Inr (rev (Node_iter t) ! nat (- i - 1)) else Inl IndexError)"
    unfolding BSTree_getitem_def BSTree_reversed_eq
    using getitem_loop_backward [of i 0 "rev (Node_iter t)"] by simp
  have "rev (Node_iter t) ! nat (- i - 1) = Node_iter t ! nat (int ?n + i)" if "- int ?n \<le> i"
  proof -
    from that True have lt: "nat (- i - 1) < ?n" by linarith
    from that True have "?n - Suc (nat (- i - 1)) = nat (int ?n + i)" by linarith
    with rev_nth [OF lt] show ?thesis by simp
  qed
  with g True show ?thesis
    by (auto simp: BSTree_len_eq BSTree_iter_eq BSTree_reversed_eq)
qed

theorem getitem_rank_witness:
  "BSTree_iter (Node (Node Absent 1 0 Absent) 3 0 (Node Absent (8::int) 0 Absent)) = [1, 3, 8] \<and>
   BSTree_getitem 0 (Node (Node Absent 1 0 Absent) 3 0 (Node Absent (8::int) 0 Absent)) = Inr 1 \<and>
   BSTree_getitem 2 (Node (Node Absent 1 0 Absent) 3 0 (Node Absent (8::int) 0 Absent)) = Inr 8 \<and>
   BSTree_getitem (-1) (Node (Node Absent 1 0 Absent) 3 0 (Node Absent (8::int) 0 Absent)) = Inr 8 \<and>
   BSTree_getitem (-3) (Node (Node Absent 1 0 Absent) 3 0 (Node Absent (8::int) 0 Absent)) = Inr 1 \<and>
   BSTree_getitem 3 (Node (Node Absent 1 0 Absent) 3 0 (Node Absent (8::int) 0 Absent)) = Inl IndexError \<and>
   BSTree_getitem (-4) (Node (Node Absent 1 0 Absent) 3 0 (Node Absent (8::int) 0 Absent)) = Inl IndexError \<and>
   BSTree_getitem 0 (Absent :: int tree) = Inl IndexError"
proof -
  let ?t = "Node (Node Absent 1 0 Absent) 3 0 (Node Absent (8::int) 0 Absent)"
  have n: "BSTree_len ?t = 3" "BSTree_iter ?t = [1, 3, 8]" "BSTree_len (Absent :: int tree) = 0"
    by (simp_all add: BSTree_len_def BSTree_iter_def)
  from getitem_rank [of 0 ?t] getitem_rank [of 2 ?t] getitem_rank [of "-1" ?t]
    getitem_rank [of "-3" ?t] getitem_rank [of 3 ?t] getitem_rank [of "-4" ?t]
    getitem_rank [of 0 "Absent :: int tree"] n
  show ?thesis by (simp add: numeral_2_eq_2)
qed

text \<open>
  C9. Deleting the value of a node with two children, in a subtree that satisfies the
  order and balance invariants: \<open>find_max\<close> of the left subtree returns its largest
  value \<open>m\<close>; \<open>m\<close> is deleted from the left subtree; the node keeps its place with \<open>m\<close>
  as its value, and the result of \<open>balance\<close> on it is returned. Inserting 5, 3, 8, 1, 4
  into an empty tree and deleting 5 gives a tree with root value 4, in-order traversal
  1, 3, 4, 8, and every balance factor between \<open>-1\<close> and \<open>1\<close>.
\<close>

theorem delete_two_children:
  "(ordered (Node l v b r) \<and> balanced (Node l v b r) \<and> l \<noteq> Absent \<and> r \<noteq> Absent \<longrightarrow>
      (\<exists>m l' t'. find_max l = Inr m \<and> m = Max (set (Node_iter l)) \<and>
         Node_delete m l = Inr l' \<and> set (Node_iter l') = set (Node_iter l) - {m} \<and>
         Node_delete v (Node l v b r) =
           balance (Node l' m (if shrank (root_bf l) l' then b + 1 else b) r) \<and>
         Node_delete v (Node l v b r) = Inr t' \<and>
         Node_iter t' = Node_iter l' @ [m] @ Node_iter r \<and>
         ordered t' \<and> balanced t')) \<and>
   built [Insert (Some (5::int)), Insert (Some 3), Insert (Some 8), Insert (Some 1),
          Insert (Some 4), Delete (Some 5)] =
     Node (Node (Node Absent 1 0 Absent) 3 (-1) Absent) 4 (-1) (Node Absent 8 0 Absent) \<and>
   BSTree_iter (built [Insert (Some (5::int)), Insert (Some 3), Insert (Some 8), Insert (Some 1),
          Insert (Some 4), Delete (Some 5)]) = [1, 3, 4, 8] \<and>
   bf_bounded (built [Insert (Some (5::int)), Insert (Some 3), Insert (Some 8), Insert (Some 1),
          Insert (Some 4), Delete (Some 5)])"
proof (intro conjI impI)
  assume a: "ordered (Node l v b r) \<and> balanced (Node l v b r) \<and> l \<noteq> Absent \<and> r \<noteq> Absent"
  then have ord: "ordered (Node l v b r)" and bal: "balanced (Node l v b r)"
    and ne: "l \<noteq> Absent" "r \<noteq> Absent" by simp_all
  from ord have ol: "ordered l" by (simp add: ordered_Node)
  from bal have bl: "balanced l" by (simp add: balanced_Node)
  from find_max_ordered [OF ol ne(1)] obtain m where
    m: "find_max l = Inr m" "m \<in> set (Node_iter l)" "\<forall>y \<in> set (Node_iter l). y \<le> m"
    by blast
  then have mx: "m = Max (set (Node_iter l))" by (metis List.finite_set Max_eqI)
  from Node_delete_balanced [OF bl ol m(2)] obtain l' where l': "Node_delete m l = Inr l'"
    by blast
  from Node_delete_values [OF ol l'] have sl: "set (Node_iter l') = set (Node_iter l) - {m}"
    by simp
  from ne obtain ll lv lb lr rl rv rb rr where n: "l = Node ll lv lb lr" "r = Node rl rv rb rr"
    by (metis tree.exhaust)
  have unfold: "Node_delete v (Node l v b r) =
      balance (Node l' m (if shrank (root_bf l) l' then b + 1 else b) r)"
    using n m(1) l' by (simp split del: if_split)
  from Node_delete_balanced [OF bal ord, of v] obtain t' where
    t': "Node_delete v (Node l v b r) = Inr t'" "balanced t'" by auto
  from Node_delete_values [OF ord t'(1)] have ot: "ordered t'" by simp
  from t'(1) unfold have "balance (Node l' m (if shrank (root_bf l) l' then b + 1 else b) r) = Inr t'"
    by simp
  then have "Node_iter t' = Node_iter l' @ [m] @ Node_iter r"
    by (auto dest: balance_iter)
  with m(1) mx l' sl unfold t' ot
  show "\<exists>m l' t'. find_max l = Inr m \<and> m = Max (set (Node_iter l)) \<and>
         Node_delete m l = Inr l' \<and> set (Node_iter l') = set (Node_iter l) - {m} \<and>
         Node_delete v (Node l v b r) =
           balance (Node l' m (if shrank (root_bf l) l' then b + 1 else b) r) \<and>
         Node_delete v (Node l v b r) = Inr t' \<and>
         Node_iter t' = Node_iter l' @ [m] @ Node_iter r \<and>
         ordered t' \<and> balanced t'"
    by blast
qed code_simp+

theorem delete_two_children_witness:
  "built [Insert (Some (5::int)), Insert (Some 3), Insert (Some 8), Insert (Some 1),
          Insert (Some 4)] =
     Node (Node (Node Absent 1 0 Absent) 3 0 (Node Absent 4 0 Absent)) 5 (-1)
       (Node Absent 8 0 Absent) \<and>
   find_max (Node (Node Absent 1 0 Absent) 3 0 (Node Absent (4::int) 0 Absent)) = Inr 4 \<and>
   (\<exists>l'. Node_delete 4 (Node (Node Absent 1 0 Absent) 3 0 (Node Absent (4::int) 0 Absent)) = Inr l' \<and>
      set (Node_iter l') = {1, 3} \<and>
      Node_delete 5 (Node (Node (Node Absent 1 0 Absent) 3 0 (Node Absent 4 0 Absent)) 5 (-1)
        (Node Absent 8 0 Absent)) =
        balance (Node l' 4 (if shrank 0 l' then - 1 + 1 else - 1) (Node Absent 8 0 Absent)))"
proof -
  let ?l = "Node (Node Absent 1 0 Absent) 3 0 (Node Absent (4::int) 0 Absent)"
  let ?r = "Node Absent (8::int) 0 Absent"
  have b: "built [Insert (Some (5::int)), Insert (Some 3), Insert (Some 8), Insert (Some 1),
          Insert (Some 4)] = Node ?l 5 (-1) ?r"
    by code_simp
  have h: "ordered (Node ?l 5 (-1) ?r) \<and> balanced (Node ?l 5 (-1) ?r) \<and> ?l \<noteq> Absent \<and> ?r \<noteq> Absent"
    by (simp add: ordered_def balanced_def)
  have fm: "find_max ?l = Inr 4" by simp
  have s: "set (Node_iter ?l) - {4} = {1, 3}" by auto
  from delete_two_children [of ?l 5 "-1" ?r] h obtain m l' where
    "find_max ?l = Inr m" "Node_delete m ?l = Inr l'"
    "set (Node_iter l') = set (Node_iter ?l) - {m}"
    "Node_delete 5 (Node ?l 5 (-1) ?r) =
       balance (Node l' m (if shrank (root_bf ?l) l' then - 1 + 1 else - 1) ?r)"
    by blast
  with fm s have "\<exists>l'. Node_delete 4 ?l = Inr l' \<and> set (Node_iter l') = {1, 3} \<and>
      Node_delete 5 (Node ?l 5 (-1) ?r) =
        balance (Node l' 4 (if shrank 0 l' then - 1 + 1 else - 1) ?r)"
    by auto
  with b fm show ?thesis by blast
qed

text \<open>
  C10. The constructor accepts an iterable with repeated values and \<open>None\<close> entries:
  \<open>BSTree_init\<close> is total, since \<open>insert\<close> catches every exception and its boolean
  result is dropped. The tree it builds iterates, in strictly ascending order, over
  exactly the values other than \<open>None\<close> that occur in the iterable, and satisfies the
  balance invariant.
\<close>

theorem init_skips_duplicates_and_None:
  "set (BSTree_iter (BSTree_init (Some vals))) = {x. Some x \<in> set vals} \<and>
   sorted_wrt (<) (BSTree_iter (BSTree_init (Some vals))) \<and>
   bf_exact (BSTree_init (Some vals)) \<and> bf_bounded (BSTree_init (Some vals))"
  using built_balanced [of "map Insert vals"]
  by (simp add: BSTree_iter_eq BSTree_init_built built_iter_set built_iter_sorted
      values_after_inserts balanced_def)

theorem init_skips_duplicates_and_None_witness:
  "BSTree_iter (BSTree_init (Some [Some (2::int), None, Some 1, Some 2, None, Some 1])) = [1, 2]"
proof -
  have "{x. Some x \<in> set [Some (2::int), None, Some 1, Some 2, None, Some 1]} = set [1, 2]"
    by auto
  with init_skips_duplicates_and_None [of "[Some (2::int), None, Some 1, Some 2, None, Some 1]"]
  show ?thesis by (intro strict_sorted_unique) simp_all
qed

end
